theory Spec2Isabelle
  imports Complex_Main
begin

section \<open>Data model of genome.go\<close>

text \<open>
  Go pointers are modelled as optional addresses into an explicit store: \<open>None\<close>
  is the nil pointer, \<open>Some a\<close> points to the object at address \<open>a\<close>. The store
  keeps every \<open>NodeGene\<close> and every \<open>ConnGene\<close> ever allocated, in allocation
  order, so that an address is the position of the object in its store and a fresh
  object is put at the end. Objects are never freed (Go is garbage collected). An
  address beyond the end of the store cannot arise in Go; reading through one is
  treated like reading through nil.

  A run-time panic is a value of \<open>panic\<close>: a function that can panic returns
  \<open>Inl\<close> of it, and \<open>Inr\<close> of its result and of the store and the random source
  after the call otherwise. Go's \<open>int\<close> is \<open>int\<close> (lengths and ids do not reach
  the 64-bit bound), \<open>float64\<close> is \<open>real\<close>.
\<close>

type_synonym ptr = "nat option"

datatype panic = NilDeref | IndexOutOfRange | IntnInvalidArg | MakeSliceCap

text \<open>A pointer to an \<open>ActivationFunc\<close>; the registry \<open>ActivationSet\<close> is not part
  of genome.go and is a parameter \<open>aset\<close> of the functions that read it.\<close>

type_synonym ActivationRef = "nat option"

record NodeGene =
  ID :: int
  Type :: string
  Activation :: ActivationRef

record ConnGene =
  From :: ptr
  To :: ptr
  Weight :: real
  Disabled :: bool

text \<open>The field \<open>ID\<close> of \<open>Genome\<close> is called \<open>GID\<close>, since \<open>ID\<close> is the field of
  \<open>NodeGene\<close>.\<close>

record Genome =
  GID :: int
  NodeGenes :: "ptr list"
  ConnGenes :: "ptr list"

record heap =
  nodeObjs :: "NodeGene list"
  connObjs :: "ConnGene list"

definition deref :: "'a list \<Rightarrow> ptr \<Rightarrow> 'a option" where
  "deref s p = (case p of None \<Rightarrow> None
                | Some a \<Rightarrow> if a < length s then Some (s ! a) else None)"

definition getNode :: "heap \<Rightarrow> ptr \<Rightarrow> NodeGene option" where
  "getNode h p = deref (nodeObjs h) p"

definition getConn :: "heap \<Rightarrow> ptr \<Rightarrow> ConnGene option" where
  "getConn h p = deref (connObjs h) p"

text \<open>Writing through a pointer that \<open>getConn\<close> has resolved.\<close>

definition setConn :: "heap \<Rightarrow> ptr \<Rightarrow> ConnGene \<Rightarrow> heap" where
  "setConn h p c = (case p of None \<Rightarrow> h
                    | Some a \<Rightarrow> h\<lparr>connObjs := (connObjs h)[a := c]\<rparr>)"

definition NewNodeGene :: "heap \<Rightarrow> int \<Rightarrow> string \<Rightarrow> ActivationRef \<Rightarrow> ptr \<times> heap" where
  "NewNodeGene h i ntype activation =
     (Some (length (nodeObjs h)),
      h\<lparr>nodeObjs := nodeObjs h @ [\<lparr>ID = i, Type = ntype, Activation = activation\<rparr>]\<rparr>)"

definition NewConnGene :: "heap \<Rightarrow> ptr \<Rightarrow> ptr \<Rightarrow> real \<Rightarrow> ptr \<times> heap" where
  "NewConnGene h from to weight =
     (Some (length (connObjs h)),
      h\<lparr>connObjs := connObjs h @ [\<lparr>From = from, To = to, Weight = weight, Disabled = False\<rparr>]\<rparr>)"

subsection \<open>The pseudorandom source\<close>

text \<open>
  The package-level generator of math/rand is an explicit stream of draws; each call
  takes the first draw and leaves the rest. \<open>Float64\<close> is in the half-open interval
  from 0 to 1, \<open>NormFloat64\<close> is any real, \<open>Intn n\<close> panics unless \<open>n\<close> is
  positive and is below \<open>n\<close> otherwise.
\<close>

record draw =
  bits :: nat
  gauss :: real

type_synonym rand = "nat \<Rightarrow> draw"

definition skip :: "nat \<Rightarrow> rand \<Rightarrow> rand" where
  "skip k r = (\<lambda>i. r (i + k))"

definition unit_of :: "draw \<Rightarrow> real" where
  "unit_of d = real (bits d mod 2 ^ 53) / 2 ^ 53"

definition Float64 :: "rand \<Rightarrow> real \<times> rand" where
  "Float64 r = (unit_of (r 0), skip 1 r)"

definition NormFloat64 :: "rand \<Rightarrow> real \<times> rand" where
  "NormFloat64 r = (gauss (r 0), skip 1 r)"

definition Intn :: "rand \<Rightarrow> nat \<Rightarrow> panic + (nat \<times> rand)" where
  "Intn r n = (if n = 0 then Inl IntnInvalidArg else Inr (bits (r 0) mod n, skip 1 r))"

section \<open>NewGenome\<close>

text \<open>
  The two loops of \<open>NewGenome\<close> fill the local slices \<open>nodeGenes\<close> and
  \<open>connGenes\<close>. \<open>inputNodes\<close> is the first loop, \<open>connectInputs\<close> the innermost
  loop over \<open>j\<close>, \<open>outputNodes\<close> the second loop.
\<close>

fun inputNodes :: "(string \<Rightarrow> ActivationRef) \<Rightarrow> nat \<Rightarrow> nat \<Rightarrow> ptr list \<Rightarrow> heap \<Rightarrow> ptr list \<times> heap" where
  "inputNodes aset i 0 nodeGenes h = (nodeGenes, h)"
| "inputNodes aset i (Suc k) nodeGenes h =
     (let (inputNode, h1) = NewNodeGene h (int i) ''input'' (aset ''identity'')
      in inputNodes aset (Suc i) k (nodeGenes @ [inputNode]) h1)"

fun connectInputs :: "ptr list \<Rightarrow> ptr \<Rightarrow> nat \<Rightarrow> nat \<Rightarrow> ptr list \<Rightarrow> heap \<Rightarrow> rand
    \<Rightarrow> panic + (ptr list \<times> heap \<times> rand)" where
  "connectInputs nodeGenes outputNode j 0 connGenes h r = Inr (connGenes, h, r)"
| "connectInputs nodeGenes outputNode j (Suc k) connGenes h r =
     (if j < length nodeGenes then
        (let (z, r1) = NormFloat64 r;
             (conn, h1) = NewConnGene h (nodeGenes ! j) outputNode (z * 6.0)
         in connectInputs nodeGenes outputNode (Suc j) k (connGenes @ [conn]) h1 r1)
      else Inl IndexOutOfRange)"

fun outputNodes :: "(string \<Rightarrow> ActivationRef) \<Rightarrow> nat \<Rightarrow> nat \<Rightarrow> nat \<Rightarrow> ptr list \<Rightarrow> ptr list \<Rightarrow> heap \<Rightarrow> rand
    \<Rightarrow> panic + (ptr list \<times> ptr list \<times> heap \<times> rand)" where
  "outputNodes aset numInputs i 0 nodeGenes connGenes h r = Inr (nodeGenes, connGenes, h, r)"
| "outputNodes aset numInputs i (Suc k) nodeGenes connGenes h r =
     (let (outputNode, h1) = NewNodeGene h (int i) ''output'' (aset ''sigmoid'');
          nodeGenes1 = nodeGenes @ [outputNode]
      in case connectInputs nodeGenes1 outputNode 0 numInputs connGenes h1 r of
           Inl e \<Rightarrow> Inl e
         | Inr (connGenes1, h2, r1) \<Rightarrow>
             outputNodes aset numInputs (Suc i) k nodeGenes1 connGenes1 h2 r1)"

text \<open>
  \<open>make\<close> panics when the capacity is negative, which is the case as soon as one
  of the two counts is. The genome that \<open>NewGenome\<close> returns is built from the
  argument \<open>id\<close> (here \<open>gid\<close>), from the result of a function literal whose body is
  empty (the nil slice) and from \<open>make([]*ConnGene, 0)\<close>: the two slices that the
  loops filled are not used.
\<close>

definition NewGenome :: "(string \<Rightarrow> ActivationRef) \<Rightarrow> int \<Rightarrow> int \<Rightarrow> int \<Rightarrow> heap \<Rightarrow> rand
    \<Rightarrow> panic + (Genome \<times> heap \<times> rand)" where
  "NewGenome aset gid numInputs numOutputs h r =
     (if numInputs + numOutputs < 0 \<or> numInputs * numOutputs < 0 then Inl MakeSliceCap
      else
        (let (nodeGenes, h1) = inputNodes aset 0 (nat numInputs) [] h
         in case outputNodes aset (nat numInputs) (nat numInputs) (nat numOutputs) nodeGenes [] h1 r of
              Inl e \<Rightarrow> Inl e
            | Inr (nodeGenes1, connGenes1, h2, r1) \<Rightarrow>
                Inr (\<lparr>GID = gid, NodeGenes = [], ConnGenes = []\<rparr>, h2, r1)))"

section \<open>Mutate\<close>

text \<open>The first loop of \<open>Mutate\<close>: one \<open>Float64\<close> per connection, and one
  \<open>NormFloat64\<close> for each connection whose weight is perturbed.\<close>

fun perturb :: "real \<Rightarrow> ptr list \<Rightarrow> heap \<Rightarrow> rand \<Rightarrow> panic + (heap \<times> rand)" where
  "perturb ratePerturb [] h r = Inr (h, r)"
| "perturb ratePerturb (conn # conns) h r =
     (let (f, r1) = Float64 r in
      if f < ratePerturb then
        (case getConn h conn of
           None \<Rightarrow> Inl NilDeref
         | Some c \<Rightarrow>
             (let (z, r2) = NormFloat64 r1
              in perturb ratePerturb conns (setConn h conn (c\<lparr>Weight := Weight c + z\<rparr>)) r2))
      else perturb ratePerturb conns h r1)"

text \<open>The second block, \<open>addNode\<close>. The index that \<open>Intn\<close> returns is below the
  length of \<open>ConnGenes\<close>, so the slice read cannot be out of range. The third block
  is \<open>addConn\<close>, and \<open>Mutate\<close> runs the three in a row.\<close>

definition addNode :: "(string \<Rightarrow> ActivationRef) \<Rightarrow> real \<Rightarrow> Genome \<Rightarrow> heap \<Rightarrow> rand
    \<Rightarrow> panic + (Genome \<times> heap \<times> rand)" where
  "addNode aset rateAddNode g h r =
     (let (f, r1) = Float64 r in
      if f < rateAddNode \<and> length (ConnGenes g) \<noteq> 0 then
        (case Intn r1 (length (ConnGenes g)) of
           Inl e \<Rightarrow> Inl e
         | Inr (k, r2) \<Rightarrow>
             (let selected = ConnGenes g ! k;
                  (newNode, h1) = NewNodeGene h (int (length (NodeGenes g))) ''hidden'' (aset ''sigmoid'')
              in case getConn h1 selected of
                   None \<Rightarrow> Inl NilDeref
                 | Some s \<Rightarrow>
                     (let (c1, h2) = NewConnGene h1 (From s) newNode 1.0;
                          (c2, h3) = NewConnGene h2 newNode (To s) (Weight s)
                      in Inr (g\<lparr>NodeGenes := NodeGenes g @ [newNode],
                                ConnGenes := ConnGenes g @ [c1, c2]\<rparr>,
                              setConn h3 selected (s\<lparr>Disabled := True\<rparr>), r2))))
      else Inr (g, h, r1))"

text \<open>The loop of the third block: is there a connection whose \<open>From\<close> and \<open>To\<close>
  are the two selected pointers?\<close>

fun alreadyLinked :: "heap \<Rightarrow> ptr \<Rightarrow> ptr \<Rightarrow> ptr list \<Rightarrow> panic + bool" where
  "alreadyLinked h selectedNode0 selectedNode1 [] = Inr False"
| "alreadyLinked h selectedNode0 selectedNode1 (conn # conns) =
     (case getConn h conn of
        None \<Rightarrow> Inl NilDeref
      | Some c \<Rightarrow>
          if From c = selectedNode0 \<and> To c = selectedNode1 then Inr True
          else alreadyLinked h selectedNode0 selectedNode1 conns)"

definition addConn :: "real \<Rightarrow> Genome \<Rightarrow> heap \<Rightarrow> rand \<Rightarrow> panic + (Genome \<times> heap \<times> rand)" where
  "addConn rateAddConn g h r =
     (let (f, r1) = Float64 r in
      if f < rateAddConn then
        (case Intn r1 (length (NodeGenes g)) of
           Inl e \<Rightarrow> Inl e
         | Inr (i0, r2) \<Rightarrow>
             (case Intn r2 (length (NodeGenes g)) of
                Inl e \<Rightarrow> Inl e
              | Inr (i1, r3) \<Rightarrow>
                  (let selectedNode0 = NodeGenes g ! i0;
                       selectedNode1 = NodeGenes g ! i1
                   in case alreadyLinked h selectedNode0 selectedNode1 (ConnGenes g) of
                        Inl e \<Rightarrow> Inl e
                      | Inr True \<Rightarrow> Inr (g, h, r3)
                      | Inr False \<Rightarrow>
                          (let (z, r4) = NormFloat64 r3;
                               (newConn, h1) = NewConnGene h selectedNode0 selectedNode1 (z * 6.0)
                           in Inr (g\<lparr>ConnGenes := ConnGenes g @ [newConn]\<rparr>, h1, r4)))))
      else Inr (g, h, r1))"

definition Mutate :: "(string \<Rightarrow> ActivationRef) \<Rightarrow> Genome \<Rightarrow> real \<Rightarrow> real \<Rightarrow> real \<Rightarrow> heap \<Rightarrow> rand
    \<Rightarrow> panic + (Genome \<times> heap \<times> rand)" where
  "Mutate aset g ratePerturb rateAddNode rateAddConn h r =
     (case perturb ratePerturb (ConnGenes g) h r of
        Inl e \<Rightarrow> Inl e
      | Inr (h1, r1) \<Rightarrow>
          (case addNode aset rateAddNode g h1 r1 of
             Inl e \<Rightarrow> Inl e
           | Inr (g2, h2, r2) \<Rightarrow> addConn rateAddConn g2 h2 r2))"

section \<open>Crossover\<close>

text \<open>
  The map \<open>innovations\<close> is a list of pairs with distinct keys. Go gives no order
  to the iteration over a map, so the last loop of \<open>Crossover\<close> visits the entries
  in an order that a schedule chooses: \<open>rangeOrder\<close> takes the entry at position
  \<open>k mod n\<close> of the \<open>n\<close> entries not yet visited. Every order arises from some
  schedule.
\<close>

type_synonym innov = "int \<times> int"

fun mapPut :: "'k \<Rightarrow> 'v \<Rightarrow> ('k \<times> 'v) list \<Rightarrow> ('k \<times> 'v) list" where
  "mapPut k v [] = [(k, v)]"
| "mapPut k v ((k', v') # m) = (if k' = k then (k, v) # m else (k', v') # mapPut k v m)"

text \<open>A map read: the zero value nil when the key is absent.\<close>

definition mapGet :: "('k \<times> ptr) list \<Rightarrow> 'k \<Rightarrow> ptr" where
  "mapGet m k = (case map_of m k of None \<Rightarrow> None | Some p \<Rightarrow> p)"

fun rangeOrder :: "nat list \<Rightarrow> 'a list \<Rightarrow> 'a list" where
  "rangeOrder sched [] = []"
| "rangeOrder [] (x # xs) = x # xs"
| "rangeOrder (k # sched) (x # xs) =
     (let i = k mod length (x # xs)
      in (x # xs) ! i # rangeOrder sched (take i (x # xs) @ drop (Suc i) (x # xs)))"

text \<open>The key \<open>[2]int{conn.From.ID, conn.To.ID}\<close>.\<close>

definition connKey :: "heap \<Rightarrow> ptr \<Rightarrow> panic + innov" where
  "connKey h conn =
     (case getConn h conn of
        None \<Rightarrow> Inl NilDeref
      | Some c \<Rightarrow>
          (case getNode h (From c) of
             None \<Rightarrow> Inl NilDeref
           | Some nf \<Rightarrow>
               (case getNode h (To c) of
                  None \<Rightarrow> Inl NilDeref
                | Some nt \<Rightarrow> Inr (ID nf, ID nt))))"

text \<open>\<open>recordAll\<close> is the loop over \<open>g0.ConnGenes\<close>, \<open>alignAll\<close> the loop over
  \<open>g1.ConnGenes\<close> with its draw for a key that is present, \<open>copyNodes\<close> the loop
  that copies the node genes of the larger parent and \<open>copyConns\<close> the loop over
  the map, here over the genes of the map in the order of the iteration.\<close>

fun recordAll :: "heap \<Rightarrow> ptr list \<Rightarrow> (innov \<times> ptr) list \<Rightarrow> panic + (innov \<times> ptr) list" where
  "recordAll h [] innovations = Inr innovations"
| "recordAll h (conn # conns) innovations =
     (case connKey h conn of
        Inl e \<Rightarrow> Inl e
      | Inr key \<Rightarrow> recordAll h conns (mapPut key conn innovations))"

fun alignAll :: "heap \<Rightarrow> ptr list \<Rightarrow> (innov \<times> ptr) list \<Rightarrow> rand
    \<Rightarrow> panic + ((innov \<times> ptr) list \<times> rand)" where
  "alignAll h [] innovations r = Inr (innovations, r)"
| "alignAll h (conn # conns) innovations r =
     (case connKey h conn of
        Inl e \<Rightarrow> Inl e
      | Inr innov \<Rightarrow>
          if mapGet innovations innov \<noteq> None then
            (let (f, r1) = Float64 r in
             if f < 0.5 then alignAll h conns (mapPut innov conn innovations) r1
             else alignAll h conns innovations r1)
          else alignAll h conns (mapPut innov conn innovations) r)"

fun copyNodes :: "ptr list \<Rightarrow> heap \<Rightarrow> panic + (ptr list \<times> heap)" where
  "copyNodes [] h = Inr ([], h)"
| "copyNodes (p # ps) h =
     (case getNode h p of
        None \<Rightarrow> Inl NilDeref
      | Some n \<Rightarrow>
          (let (q, h1) = NewNodeGene h (ID n) (Type n) (Activation n)
           in case copyNodes ps h1 of
                Inl e \<Rightarrow> Inl e
              | Inr (qs, h2) \<Rightarrow> Inr (q # qs, h2)))"

text \<open>Reading \<open>nodeGenes[i]\<close> for an \<open>int\<close> index panics outside the slice.\<close>

definition index :: "'a list \<Rightarrow> int \<Rightarrow> panic + 'a" where
  "index xs i = (if 0 \<le> i \<and> i < int (length xs) then Inr (xs ! nat i) else Inl IndexOutOfRange)"

fun copyConns :: "ptr list \<Rightarrow> ptr list \<Rightarrow> heap \<Rightarrow> panic + (ptr list \<times> heap)" where
  "copyConns nodeGenes [] h = Inr ([], h)"
| "copyConns nodeGenes (conn # conns) h =
     (case getConn h conn of
        None \<Rightarrow> Inl NilDeref
      | Some c \<Rightarrow>
          (case getNode h (From c) of
             None \<Rightarrow> Inl NilDeref
           | Some nf \<Rightarrow>
               (case index nodeGenes (ID nf) of
                  Inl e \<Rightarrow> Inl e
                | Inr from \<Rightarrow>
                    (case getNode h (To c) of
                       None \<Rightarrow> Inl NilDeref
                     | Some nt \<Rightarrow>
                         (case index nodeGenes (ID nt) of
                            Inl e \<Rightarrow> Inl e
                          | Inr to \<Rightarrow>
                              (let q = Some (length (connObjs h));
                                   h1 = h\<lparr>connObjs := connObjs h @
                                          [\<lparr>From = from, To = to, Weight = Weight c, Disabled = Disabled c\<rparr>]\<rparr>
                               in case copyConns nodeGenes conns h1 of
                                    Inl e \<Rightarrow> Inl e
                                  | Inr (qs, h2) \<Rightarrow> Inr (q # qs, h2)))))))"

definition Crossover :: "int \<Rightarrow> Genome \<Rightarrow> Genome \<Rightarrow> heap \<Rightarrow> rand \<Rightarrow> nat list
    \<Rightarrow> panic + (Genome \<times> heap \<times> rand)" where
  "Crossover gid g0 g1 h r sched =
     (case recordAll h (ConnGenes g0) [] of
        Inl e \<Rightarrow> Inl e
      | Inr innovations0 \<Rightarrow>
          (case alignAll h (ConnGenes g1) innovations0 r of
             Inl e \<Rightarrow> Inl e
           | Inr (innovations, r1) \<Rightarrow>
               (let largerParent = (if length (NodeGenes g0) < length (NodeGenes g1) then g1 else g0)
                in case copyNodes (NodeGenes largerParent) h of
                     Inl e \<Rightarrow> Inl e
                   | Inr (nodeGenes, h1) \<Rightarrow>
                       (case copyConns nodeGenes (map snd (rangeOrder sched innovations)) h1 of
                          Inl e \<Rightarrow> Inl e
                        | Inr (connGenes, h2) \<Rightarrow>
                            Inr (\<lparr>GID = gid, NodeGenes = nodeGenes, ConnGenes = connGenes\<rparr>, h2, r1)))))"

section \<open>Properties of genomes\<close>

text \<open>The invariant \<open>nodes[i].id == i\<close>: every node pointer of the genome resolves,
  to a node whose \<open>ID\<close> is its position in \<open>NodeGenes\<close>.\<close>

definition idAsIndex :: "heap \<Rightarrow> Genome \<Rightarrow> bool" where
  "idAsIndex h g =
     (map (\<lambda>p. map_option ID (getNode h p)) (NodeGenes g) =
      map (\<lambda>i. Some (int i)) [0..<length (NodeGenes g)])"

text \<open>Every connection resolves, and its two ends are nodes of the same genome.\<close>

definition endpointsOwned :: "heap \<Rightarrow> Genome \<Rightarrow> bool" where
  "endpointsOwned h g =
     list_all (\<lambda>conn. case getConn h conn of
                         None \<Rightarrow> False
                       | Some c \<Rightarrow> From c \<in> set (NodeGenes g) \<and> To c \<in> set (NodeGenes g))
       (ConnGenes g)"

text \<open>At most one connection for each ordered pair \<open>(from.id, to.id)\<close>.\<close>

definition uniquePairs :: "heap \<Rightarrow> Genome \<Rightarrow> bool" where
  "uniquePairs h g = distinct (map (connKey h) (ConnGenes g))"

definition valid :: "heap \<Rightarrow> Genome \<Rightarrow> bool" where
  "valid h g = (idAsIndex h g \<and> endpointsOwned h g \<and> uniquePairs h g)"

text \<open>The tuple \<open>(from.id, to.id, weight, disabled)\<close> of a connection.\<close>

definition connTuple :: "heap \<Rightarrow> ptr \<Rightarrow> (int \<times> int \<times> real \<times> bool) option" where
  "connTuple h conn =
     (case getConn h conn of
        None \<Rightarrow> None
      | Some c \<Rightarrow>
          (case connKey h conn of
             Inl e \<Rightarrow> None
           | Inr (a, b) \<Rightarrow> Some (a, b, Weight c, Disabled c)))"

text \<open>The connections of a genome that are enabled in the first heap and disabled in
  the second.\<close>

definition enabledIn :: "heap \<Rightarrow> ptr \<Rightarrow> bool" where
  "enabledIn h conn = (case getConn h conn of None \<Rightarrow> False | Some c \<Rightarrow> \<not> Disabled c)"

definition disabledIn :: "heap \<Rightarrow> ptr \<Rightarrow> bool" where
  "disabledIn h conn = (case getConn h conn of None \<Rightarrow> False | Some c \<Rightarrow> Disabled c)"

definition newlyDisabled :: "heap \<Rightarrow> heap \<Rightarrow> Genome \<Rightarrow> ptr list" where
  "newlyDisabled h h' g = filter (\<lambda>conn. enabledIn h conn \<and> disabledIn h' conn) (ConnGenes g)"

text \<open>A caller that invokes \<open>Mutate(g, 0, 0, 1.0)\<close> a number of times on the same
  genome, one call after the other.\<close>

fun repeatAddConn :: "(string \<Rightarrow> ActivationRef) \<Rightarrow> nat \<Rightarrow> Genome \<Rightarrow> heap \<Rightarrow> rand
    \<Rightarrow> panic + (Genome \<times> heap \<times> rand)" where
  "repeatAddConn aset 0 g h r = Inr (g, h, r)"
| "repeatAddConn aset (Suc n) g h r =
     (case Mutate aset g 0 0 1 h r of
        Inl e \<Rightarrow> Inl e
      | Inr (g1, h1, r1) \<Rightarrow> repeatAddConn aset n g1 h1 r1)"

text \<open>The connection that the last loop of \<open>Crossover\<close> builds for a gene of the
  map, when the pointers of the gene resolve and its two node ids are indices of
  \<open>nodeGenes\<close>.\<close>

definition childConn :: "ptr list \<Rightarrow> heap \<Rightarrow> ptr \<Rightarrow> ConnGene option" where
  "childConn nodeGenes h conn =
     (case getConn h conn of
        None \<Rightarrow> None
      | Some c \<Rightarrow>
          (case connKey h conn of
             Inl e \<Rightarrow> None
           | Inr (a, b) \<Rightarrow>
               (case index nodeGenes a of
                  Inl e \<Rightarrow> None
                | Inr from \<Rightarrow>
                    (case index nodeGenes b of
                       Inl e \<Rightarrow> None
                     | Inr to \<Rightarrow>
                         Some \<lparr>From = from, To = to, Weight = Weight c, Disabled = Disabled c\<rparr>))))"

text \<open>The parent whose node list \<open>Crossover\<close> copies.\<close>

definition largerParent :: "Genome \<Rightarrow> Genome \<Rightarrow> Genome" where
  "largerParent g0 g1 = (if length (NodeGenes g0) < length (NodeGenes g1) then g1 else g0)"

text \<open>The second loop of \<open>Crossover\<close> draws a \<open>Float64\<close> for a connection of \<open>g1\<close>
  exactly when its key is already in the map. For parents with at most one connection
  for each key that is when a connection of \<open>g0\<close> has the same key, and the draw for
  the connection at position \<open>j\<close> is the one after the draws for the connections
  before it.\<close>

definition sharedKey :: "heap \<Rightarrow> ptr list \<Rightarrow> ptr \<Rightarrow> bool" where
  "sharedKey h conns0 conn = (connKey h conn \<in> set (map (connKey h) conns0))"

definition tieBreak :: "heap \<Rightarrow> ptr list \<Rightarrow> ptr list \<Rightarrow> nat \<Rightarrow> nat" where
  "tieBreak h conns0 conns1 j = length (filter (sharedKey h conns0) (take j conns1))"

section \<open>Two genomes in one store\<close>

text \<open>
  The registry holds \<open>identity\<close> and \<open>sigmoid\<close>. Genome A has the nodes 0, 1, 2
  and the connections 0\<rightarrow>2, 1\<rightarrow>2 (disabled) and 0\<rightarrow>1; genome B has the nodes
  0, 1, 2, 3 and the connections 0\<rightarrow>2, 1\<rightarrow>2 (disabled), 1\<rightarrow>3 and 3\<rightarrow>2. The
  objects of A come first in the store.
\<close>

definition exAset :: "string \<Rightarrow> ActivationRef" where
  "exAset name = (if name = ''identity'' then Some 0 else if name = ''sigmoid'' then Some 1 else None)"

definition exHeap :: heap where
  "exHeap =
     \<lparr>nodeObjs =
        [\<lparr>ID = 0, Type = ''input'', Activation = Some 0\<rparr>,
         \<lparr>ID = 1, Type = ''input'', Activation = Some 0\<rparr>,
         \<lparr>ID = 2, Type = ''output'', Activation = Some 1\<rparr>,
         \<lparr>ID = 0, Type = ''input'', Activation = Some 0\<rparr>,
         \<lparr>ID = 1, Type = ''input'', Activation = Some 0\<rparr>,
         \<lparr>ID = 2, Type = ''output'', Activation = Some 1\<rparr>,
         \<lparr>ID = 3, Type = ''hidden'', Activation = Some 1\<rparr>],
      connObjs =
        [\<lparr>From = Some 0, To = Some 2, Weight = 1 / 2, Disabled = False\<rparr>,
         \<lparr>From = Some 1, To = Some 2, Weight = - 3, Disabled = True\<rparr>,
         \<lparr>From = Some 0, To = Some 1, Weight = 5, Disabled = False\<rparr>,
         \<lparr>From = Some 3, To = Some 5, Weight = 2, Disabled = False\<rparr>,
         \<lparr>From = Some 4, To = Some 5, Weight = 4, Disabled = True\<rparr>,
         \<lparr>From = Some 4, To = Some 6, Weight = 1, Disabled = False\<rparr>,
         \<lparr>From = Some 6, To = Some 5, Weight = 4, Disabled = False\<rparr>]\<rparr>"

definition exGenomeA :: Genome where
  "exGenomeA = \<lparr>GID = 1, NodeGenes = [Some 0, Some 1, Some 2], ConnGenes = [Some 0, Some 1, Some 2]\<rparr>"

definition exGenomeB :: Genome where
  "exGenomeB = \<lparr>GID = 2, NodeGenes = [Some 3, Some 4, Some 5, Some 6],
                 ConnGenes = [Some 3, Some 4, Some 5, Some 6]\<rparr>"

text \<open>The draw number \<open>i\<close> has the bits \<open>i\<close>, so every \<open>Float64\<close> is small; the
  draws of \<open>exRandHigh\<close> make every \<open>Float64\<close> one half.\<close>

definition exRand :: rand where
  "exRand = (\<lambda>i. \<lparr>bits = i, gauss = real i / 4\<rparr>)"

definition exRandHigh :: rand where
  "exRandHigh = (\<lambda>i. \<lparr>bits = 2 ^ 52, gauss = 1\<rparr>)"

text \<open>The first \<open>Float64\<close> of \<open>exRandMixed\<close> is 0, all later ones are one half.\<close>

definition exRandMixed :: rand where
  "exRandMixed = (\<lambda>i. \<lparr>bits = (if i = 0 then 0 else 2 ^ 52), gauss = 1\<rparr>)"

text \<open>The store after the add-node step of genome A has selected the connection
  1\<rightarrow>2.\<close>

definition exHeapSplit :: heap where
  "exHeapSplit =
     exHeap\<lparr>nodeObjs := nodeObjs exHeap @ [\<lparr>ID = 3, Type = ''hidden'', Activation = Some 1\<rparr>],
            connObjs := connObjs exHeap @
              [\<lparr>From = Some 1, To = Some 7, Weight = 1, Disabled = False\<rparr>,
               \<lparr>From = Some 7, To = Some 2, Weight = - 3, Disabled = False\<rparr>]\<rparr>"

section \<open>NewGenome drops the genes it has built\<close>

text \<open>
  C1. The factory is to return the \<open>nI + nO\<close> nodes it created and the \<open>nI * nO\<close>
  connections between them. The genome that \<open>NewGenome(1, 2, 1)\<close> returns has no
  node and no connection: the three nodes and the two connections were allocated, but
  the slices that hold them are not the ones put into the genome.
\<close>

theorem NewGenome_returns_empty_genome:
  "map_sum (\<lambda>e. e) fst (NewGenome aset 1 2 1 \<lparr>nodeObjs = [], connObjs = []\<rparr> r) =
     Inr \<lparr>GID = 1, NodeGenes = [], ConnGenes = []\<rparr>"
  by (simp add: NewGenome_def NewNodeGene_def NewConnGene_def NormFloat64_def eval_nat_numeral)

section \<open>The random source and the store\<close>

lemma unit_of_nonneg: "0 \<le> unit_of d"
  by (simp add: unit_of_def)

lemma unit_of_less_one: "unit_of d < 1"
proof -
  have "bits d mod 2 ^ 53 < (2::nat) ^ 53" by simp
  then have "real (bits d mod 2 ^ 53) < real ((2::nat) ^ 53)" by (rule iffD2 [OF of_nat_less_iff])
  then show ?thesis by (simp add: unit_of_def)
qed

lemma skip_apply: "skip k r i = r (i + k)"
  by (simp add: skip_def)

lemma skip_skip: "skip a (skip b r) = skip (a + b) r"
  by (rule ext) (simp add: skip_def ac_simps)

lemma skip_zero: "skip 0 r = r"
  by (simp add: skip_def)

lemma getConn_setConn_same:
  "getConn h p = Some c \<Longrightarrow> getConn (setConn h p c') p = Some c'"
  by (auto simp: getConn_def setConn_def deref_def split: option.splits if_splits)

lemma getConn_setConn_other:
  "q \<noteq> p \<Longrightarrow> getConn (setConn h p c') q = getConn h q"
  by (cases p; cases q) (simp_all add: getConn_def setConn_def deref_def)

lemma nodeObjs_setConn: "nodeObjs (setConn h p c) = nodeObjs h"
  by (simp add: setConn_def split: option.splits)

lemma length_connObjs_setConn: "length (connObjs (setConn h p c)) = length (connObjs h)"
  by (simp add: setConn_def split: option.splits)

lemma getNode_setConn: "getNode (setConn h p c) q = getNode h q"
  by (simp add: getNode_def nodeObjs_setConn)

section \<open>The weight perturbation\<close>

lemma perturb_zero: "perturb 0 conns h r = Inr (h, skip (length conns) r)"
proof (induction conns arbitrary: r)
  case Nil
  show ?case by (simp add: skip_zero)
next
  case (Cons conn conns)
  have "\<not> unit_of (r 0) < 0" using unit_of_nonneg [of "r 0"] by simp
  then show ?case by (simp add: Float64_def Cons skip_skip)
qed

lemma perturb_frame:
  "perturb rate conns h r = Inr (h', r') \<Longrightarrow>
     nodeObjs h' = nodeObjs h \<and> length (connObjs h') = length (connObjs h)"
proof (induction conns arbitrary: h r)
  case Nil
  then show ?case by simp
next
  case (Cons conn conns)
  then show ?case
    by (fastforce simp: Float64_def NormFloat64_def nodeObjs_setConn length_connObjs_setConn
        split: if_splits option.splits)
qed

text \<open>What \<open>From\<close>, \<open>To\<close> and \<open>Disabled\<close> of a connection are is not changed.\<close>

lemma perturb_only_weights:
  "perturb rate conns h r = Inr (h', r') \<Longrightarrow>
     map_option (\<lambda>c. (From c, To c, Disabled c)) (getConn h' p) =
     map_option (\<lambda>c. (From c, To c, Disabled c)) (getConn h p)"
proof (induction conns arbitrary: h r)
  case Nil
  then show ?case by simp
next
  case (Cons conn conns)
  show ?case
  proof (cases "unit_of (r 0) < rate")
    case False
    with Cons.prems have "perturb rate conns h (skip 1 r) = Inr (h', r')"
      by (simp add: Float64_def)
    then show ?thesis by (rule Cons.IH)
  next
    case True
    with Cons.prems obtain c where c: "getConn h conn = Some c" and
      run: "perturb rate conns (setConn h conn (c\<lparr>Weight := Weight c + gauss (r 1)\<rparr>)) (skip 2 r) =
        Inr (h', r')"
      by (auto simp: Float64_def NormFloat64_def skip_skip skip_apply numeral_2_eq_2
          split: option.splits)
    have "map_option (\<lambda>c. (From c, To c, Disabled c))
        (getConn (setConn h conn (c\<lparr>Weight := Weight c + gauss (r 1)\<rparr>)) p) =
      map_option (\<lambda>c. (From c, To c, Disabled c)) (getConn h p)"
    proof (cases "p = conn")
      case True
      with c getConn_setConn_same [OF c] show ?thesis by simp
    next
      case False
      then show ?thesis by (simp add: getConn_setConn_other)
    qed
    with Cons.IH [OF run] show ?thesis by simp
  qed
qed

lemma perturb_one:
  assumes "distinct conns" and "\<forall>conn\<in>set conns. getConn h conn \<noteq> None"
  shows "\<exists>h'. perturb 1 conns h r = Inr (h', skip (2 * length conns) r) \<and>
           nodeObjs h' = nodeObjs h \<and> length (connObjs h') = length (connObjs h) \<and>
           (\<forall>i<length conns. getConn h' (conns ! i) =
              map_option (\<lambda>c. c\<lparr>Weight := Weight c + gauss (r (2 * i + 1))\<rparr>) (getConn h (conns ! i))) \<and>
           (\<forall>p. p \<notin> set conns \<longrightarrow> getConn h' p = getConn h p)"
  using assms
proof (induction conns arbitrary: h r)
  case Nil
  show ?case by (simp add: skip_zero)
next
  case (Cons conn conns)
  from Cons.prems obtain c where c: "getConn h conn = Some c" by auto
  define h1 where "h1 = setConn h conn (c\<lparr>Weight := Weight c + gauss (r 1)\<rparr>)"
  have notin: "conn \<notin> set conns" and dist: "distinct conns" using Cons.prems by auto
  have other: "getConn h1 p = getConn h p" if "p \<noteq> conn" for p
    using that by (simp add: h1_def getConn_setConn_other)
  have "\<forall>x\<in>set conns. getConn h1 x \<noteq> None"
    using Cons.prems notin other by (metis list.set_intros(2))
  from Cons.IH [OF dist this, of "skip 2 r"] obtain h' where
    run: "perturb 1 conns h1 (skip 2 r) = Inr (h', skip (2 * length conns) (skip 2 r))" and
    fr: "nodeObjs h' = nodeObjs h1" "length (connObjs h') = length (connObjs h1)" and
    upd: "\<forall>i<length conns. getConn h' (conns ! i) =
              map_option (\<lambda>c. c\<lparr>Weight := Weight c + gauss (skip 2 r (2 * i + 1))\<rparr>) (getConn h1 (conns ! i))" and
    rest: "\<forall>p. p \<notin> set conns \<longrightarrow> getConn h' p = getConn h1 p"
    by blast
  have step: "perturb 1 (conn # conns) h r = perturb 1 conns h1 (skip 2 r)"
    using unit_of_less_one [of "r 0"]
    by (simp add: Float64_def NormFloat64_def c h1_def skip_skip skip_apply numeral_2_eq_2)
  have a: "perturb 1 (conn # conns) h r = Inr (h', skip (2 * length (conn # conns)) r)"
    by (simp only: step run skip_skip) simp
  have b: "nodeObjs h' = nodeObjs h" "length (connObjs h') = length (connObjs h)"
    using fr by (simp_all add: h1_def nodeObjs_setConn length_connObjs_setConn)
  have c0: "getConn h' conn = Some (c\<lparr>Weight := Weight c + gauss (r 1)\<rparr>)"
    using rest notin c by (simp add: h1_def getConn_setConn_same)
  have d: "getConn h' ((conn # conns) ! i) =
              map_option (\<lambda>c. c\<lparr>Weight := Weight c + gauss (r (2 * i + 1))\<rparr>) (getConn h ((conn # conns) ! i))"
    if "i < length (conn # conns)" for i
  proof (cases i)
    case 0
    then show ?thesis using c0 c by simp
  next
    case (Suc j)
    then have j: "j < length conns" using that by simp
    then have "conns ! j \<noteq> conn" using notin nth_mem by metis
    then have "getConn h1 (conns ! j) = getConn h (conns ! j)" by (rule other)
    then show ?thesis using upd j Suc by (simp add: skip_apply)
  qed
  have e: "\<forall>p. p \<notin> set (conn # conns) \<longrightarrow> getConn h' p = getConn h p"
    using rest other by simp
  show ?case using a b d e by blast
qed

section \<open>Mutate with a single step switched on\<close>

lemma addNode_zero: "addNode aset 0 g h r = Inr (g, h, skip 1 r)"
  using unit_of_nonneg [of "r 0"] by (simp add: addNode_def Float64_def)

lemma addNode_no_conns: "ConnGenes g = [] \<Longrightarrow> addNode aset rate g h r = Inr (g, h, skip 1 r)"
  by (simp add: addNode_def Float64_def)

lemma addConn_zero: "addConn 0 g h r = Inr (g, h, skip 1 r)"
  using unit_of_nonneg [of "r 0"] by (simp add: addConn_def Float64_def)

lemma addConn_no_nodes:
  "NodeGenes g = [] \<Longrightarrow> unit_of (r 0) < rate \<Longrightarrow> addConn rate g h r = Inl IntnInvalidArg"
  by (simp add: addConn_def Float64_def Intn_def)

lemma endpointsOwned_no_nodes: "endpointsOwned h g \<Longrightarrow> NodeGenes g = [] \<Longrightarrow> ConnGenes g = []"
  by (cases "ConnGenes g") (auto simp: endpointsOwned_def split: option.splits)

text \<open>
  C8. The perturbation touches weights only. With all three rates 0, \<open>Mutate\<close>
  returns the genome and the store as they were (only draws are used up). With
  \<open>ratePerturb = 1\<close> and the other rates 0, on a genome whose connection pointers are
  distinct and resolve, the genome keeps its node and connection lists, no node object
  changes, no connection object is added, the connection at position \<open>i\<close> has its
  weight increased by the \<open>NormFloat64\<close> sample drawn for it, and every other
  connection object is as before. For any \<open>ratePerturb\<close>, with the other rates 0, a
  call that returns leaves the genome, the node objects and the number of connection
  objects as they were, and of a connection object nothing but the weight can differ.
\<close>

theorem Mutate_perturbation_only:
  "Mutate aset g 0 0 0 h r = Inr (g, h, skip (length (ConnGenes g) + 2) r) \<and>
   (distinct (ConnGenes g) \<and> (\<forall>conn\<in>set (ConnGenes g). getConn h conn \<noteq> None) \<longrightarrow>
     (\<exists>h'. Mutate aset g 1 0 0 h r = Inr (g, h', skip (2 * length (ConnGenes g) + 2) r) \<and>
        nodeObjs h' = nodeObjs h \<and> length (connObjs h') = length (connObjs h) \<and>
        (\<forall>i<length (ConnGenes g). getConn h' (ConnGenes g ! i) =
           map_option (\<lambda>c. c\<lparr>Weight := Weight c + gauss (r (2 * i + 1))\<rparr>) (getConn h (ConnGenes g ! i))) \<and>
        (\<forall>p. p \<notin> set (ConnGenes g) \<longrightarrow> getConn h' p = getConn h p))) \<and>
   (\<forall>g' h' r'. Mutate aset g ratePerturb 0 0 h r = Inr (g', h', r') \<longrightarrow>
      g' = g \<and> nodeObjs h' = nodeObjs h \<and> length (connObjs h') = length (connObjs h) \<and>
      (\<forall>p. map_option (\<lambda>c. (From c, To c, Disabled c)) (getConn h' p) =
           map_option (\<lambda>c. (From c, To c, Disabled c)) (getConn h p)))"
proof (intro conjI impI allI)
  show "Mutate aset g 0 0 0 h r = Inr (g, h, skip (length (ConnGenes g) + 2) r)"
    by (simp add: Mutate_def perturb_zero addNode_zero addConn_zero skip_skip)
next
  fix g' h' r' p
  assume "Mutate aset g ratePerturb 0 0 h r = Inr (g', h', r')"
  then obtain r1 where run: "perturb ratePerturb (ConnGenes g) h r = Inr (h', r1)" and g': "g' = g"
    by (auto simp: Mutate_def addNode_zero addConn_zero split: sum.splits)
  from g' show "g' = g" .
  from perturb_frame [OF run] show "nodeObjs h' = nodeObjs h"
    and "length (connObjs h') = length (connObjs h)" by simp_all
  from run show "map_option (\<lambda>c. (From c, To c, Disabled c)) (getConn h' p) =
           map_option (\<lambda>c. (From c, To c, Disabled c)) (getConn h p)"
    by (rule perturb_only_weights)
next
  assume "distinct (ConnGenes g) \<and> (\<forall>conn\<in>set (ConnGenes g). getConn h conn \<noteq> None)"
  then have d: "distinct (ConnGenes g)" and v: "\<forall>conn\<in>set (ConnGenes g). getConn h conn \<noteq> None"
    by simp_all
  from perturb_one [OF d v, of r] obtain h' where
    run: "perturb 1 (ConnGenes g) h r = Inr (h', skip (2 * length (ConnGenes g)) r)" and
    rest: "nodeObjs h' = nodeObjs h \<and> length (connObjs h') = length (connObjs h) \<and>
        (\<forall>i<length (ConnGenes g). getConn h' (ConnGenes g ! i) =
           map_option (\<lambda>c. c\<lparr>Weight := Weight c + gauss (r (2 * i + 1))\<rparr>) (getConn h (ConnGenes g ! i))) \<and>
        (\<forall>p. p \<notin> set (ConnGenes g) \<longrightarrow> getConn h' p = getConn h p)"
    by blast
  have "Mutate aset g 1 0 0 h r = Inr (g, h', skip (2 * length (ConnGenes g) + 2) r)"
    by (simp add: Mutate_def run addNode_zero addConn_zero skip_skip)
  with rest show "\<exists>h'. Mutate aset g 1 0 0 h r = Inr (g, h', skip (2 * length (ConnGenes g) + 2) r) \<and>
        nodeObjs h' = nodeObjs h \<and> length (connObjs h') = length (connObjs h) \<and>
        (\<forall>i<length (ConnGenes g). getConn h' (ConnGenes g ! i) =
           map_option (\<lambda>c. c\<lparr>Weight := Weight c + gauss (r (2 * i + 1))\<rparr>) (getConn h (ConnGenes g ! i))) \<and>
        (\<forall>p. p \<notin> set (ConnGenes g) \<longrightarrow> getConn h' p = getConn h p)"
    by blast
qed

theorem Mutate_perturbation_only_witness:
  "distinct (ConnGenes exGenomeA) \<and> list_all (\<lambda>conn. getConn exHeap conn \<noteq> None) (ConnGenes exGenomeA) \<and>
   (\<exists>h'. Mutate exAset exGenomeA 1 0 0 exHeap exRand = Inr (exGenomeA, h', skip 8 exRand) \<and>
      nodeObjs h' = nodeObjs exHeap \<and>
      getConn h' (Some 1) = Some \<lparr>From = Some 1, To = Some 2, Weight = - 3 + 3 / 4, Disabled = True\<rparr>)"
proof -
  have d: "distinct (ConnGenes exGenomeA)" by (simp add: exGenomeA_def)
  have v: "\<forall>conn\<in>set (ConnGenes exGenomeA). getConn exHeap conn \<noteq> None"
    by (simp add: exGenomeA_def exHeap_def getConn_def deref_def)
  have len: "length (ConnGenes exGenomeA) = 3" by (simp add: exGenomeA_def)
  from Mutate_perturbation_only [of exAset exGenomeA exHeap exRand] d v
  obtain h' where
    "Mutate exAset exGenomeA 1 0 0 exHeap exRand =
       Inr (exGenomeA, h', skip (2 * length (ConnGenes exGenomeA) + 2) exRand)"
    "nodeObjs h' = nodeObjs exHeap"
    "\<forall>i<length (ConnGenes exGenomeA). getConn h' (ConnGenes exGenomeA ! i) =
       map_option (\<lambda>c. c\<lparr>Weight := Weight c + gauss (exRand (2 * i + 1))\<rparr>)
         (getConn exHeap (ConnGenes exGenomeA ! i))"
    by blast
  then have "Mutate exAset exGenomeA 1 0 0 exHeap exRand = Inr (exGenomeA, h', skip 8 exRand)"
    "nodeObjs h' = nodeObjs exHeap"
    "getConn h' (ConnGenes exGenomeA ! 1) =
       map_option (\<lambda>c. c\<lparr>Weight := Weight c + gauss (exRand (2 * 1 + 1))\<rparr>)
         (getConn exHeap (ConnGenes exGenomeA ! 1))"
    by (simp_all add: len)
  then show ?thesis
    using d v by (simp add: list_all_iff exGenomeA_def exHeap_def exRand_def getConn_def deref_def)
qed

text \<open>
  C10. The add-connection step has no guard on the node list. On a genome without
  nodes, the step panics in \<open>rand.Intn(0)\<close> as soon as its draw is below
  \<open>rateAddConn\<close>, whereas the add-node step on a genome without connections returns
  the genome as it is. So \<open>Mutate\<close> panics on a genome without nodes (and, its ends
  being owned, without connections) whenever the add-connection draw succeeds.
\<close>

theorem Mutate_without_nodes_panics:
  assumes "NodeGenes g = []"
  shows "(unit_of (r 0) < rateAddConn \<longrightarrow> addConn rateAddConn g h r = Inl IntnInvalidArg) \<and>
         (ConnGenes g = [] \<longrightarrow> addNode aset rateAddNode g h r = Inr (g, h, skip 1 r)) \<and>
         (endpointsOwned h g \<and> unit_of (r 1) < rateAddConn \<longrightarrow>
            Mutate aset g ratePerturb rateAddNode rateAddConn h r = Inl IntnInvalidArg)"
proof (intro conjI impI)
  assume "unit_of (r 0) < rateAddConn"
  with assms show "addConn rateAddConn g h r = Inl IntnInvalidArg" by (rule addConn_no_nodes)
next
  assume "ConnGenes g = []"
  then show "addNode aset rateAddNode g h r = Inr (g, h, skip 1 r)" by (rule addNode_no_conns)
next
  assume a: "endpointsOwned h g \<and> unit_of (r 1) < rateAddConn"
  then have e: "ConnGenes g = []" using assms endpointsOwned_no_nodes by blast
  have "unit_of (skip 1 r 0) < rateAddConn" using a by (simp add: skip_apply)
  then have "addConn rateAddConn g h (skip 1 r) = Inl IntnInvalidArg"
    using assms by (rule addConn_no_nodes [rotated])
  then show "Mutate aset g ratePerturb rateAddNode rateAddConn h r = Inl IntnInvalidArg"
    by (simp add: Mutate_def e addNode_no_conns)
qed


theorem Mutate_without_nodes_panics_witness:
  "NodeGenes \<lparr>GID = 0, NodeGenes = [], ConnGenes = []\<rparr> = [] \<and>
   endpointsOwned exHeap \<lparr>GID = 0, NodeGenes = [], ConnGenes = []\<rparr> \<and>
   unit_of (exRand 1) < 1 / 2 \<and>
   Mutate exAset \<lparr>GID = 0, NodeGenes = [], ConnGenes = []\<rparr> 1 1 (1 / 2) exHeap exRand = Inl IntnInvalidArg"
proof -
  have n: "NodeGenes \<lparr>GID = 0, NodeGenes = [], ConnGenes = []\<rparr> = []" by simp
  have e: "endpointsOwned exHeap \<lparr>GID = 0, NodeGenes = [], ConnGenes = []\<rparr>"
    by (simp add: endpointsOwned_def)
  have u: "unit_of (exRand 1) < 1 / 2" by (simp add: unit_of_def exRand_def)
  show ?thesis
    using Mutate_without_nodes_panics [OF n, of exRand "1 / 2" exHeap exAset 1 1] e u by simp
qed

lemma getConn_append:
  "getConn h p = Some c \<Longrightarrow> getConn (h\<lparr>connObjs := connObjs h @ xs\<rparr>) p = Some c"
  by (cases p) (auto simp: getConn_def deref_def nth_append split: if_splits)

lemma getConn_new_node [simp]: "getConn (h\<lparr>nodeObjs := ns\<rparr>) p = getConn h p"
  by (simp add: getConn_def)

lemma getNode_new_conn [simp]: "getNode (h\<lparr>connObjs := cs\<rparr>) p = getNode h p"
  by (simp add: getNode_def)

lemma getNode_append:
  "getNode h p = Some n \<Longrightarrow> getNode (h\<lparr>nodeObjs := nodeObjs h @ xs\<rparr>) p = Some n"
  by (cases p) (auto simp: getNode_def deref_def nth_append split: if_splits)

lemma getConn_SomeD: "getConn h p = Some c \<Longrightarrow> \<exists>a. p = Some a \<and> a < length (connObjs h) \<and> connObjs h ! a = c"
  by (cases p) (auto simp: getConn_def deref_def split: if_splits)

lemma getNode_SomeD: "getNode h p = Some n \<Longrightarrow> \<exists>a. p = Some a \<and> a < length (nodeObjs h) \<and> nodeObjs h ! a = n"
  by (cases p) (auto simp: getNode_def deref_def split: if_splits)

lemma addNode_fires:
  assumes ne: "ConnGenes g \<noteq> []"
    and f: "unit_of (r 0) < rate"
    and sel: "getConn h (ConnGenes g ! (bits (r 1) mod length (ConnGenes g))) = Some s"
  shows "addNode aset rate g h r =
     Inr (g\<lparr>NodeGenes := NodeGenes g @ [Some (length (nodeObjs h))],
            ConnGenes := ConnGenes g @ [Some (length (connObjs h)), Some (Suc (length (connObjs h)))]\<rparr>,
          setConn (h\<lparr>nodeObjs := nodeObjs h @
                       [\<lparr>ID = int (length (NodeGenes g)), Type = ''hidden'', Activation = aset ''sigmoid''\<rparr>],
                     connObjs := connObjs h @
                       [\<lparr>From = From s, To = Some (length (nodeObjs h)), Weight = 1, Disabled = False\<rparr>,
                        \<lparr>From = Some (length (nodeObjs h)), To = To s, Weight = Weight s, Disabled = False\<rparr>]\<rparr>)
            (ConnGenes g ! (bits (r 1) mod length (ConnGenes g))) (s\<lparr>Disabled := True\<rparr>),
          skip 2 r)"
  using ne f sel
  by (simp add: addNode_def Float64_def Intn_def NewNodeGene_def NewConnGene_def skip_apply skip_skip
      numeral_2_eq_2)


lemma length_filter_eq_one:
  "distinct xs \<Longrightarrow> x \<in> set xs \<Longrightarrow> length (filter (\<lambda>y. y = x) xs) = 1"
  by (induction xs) (auto simp: filter_empty_conv)

text \<open>
  C3 (amended). On a genome with at least one connection, \<open>Mutate(g, 0, 1.0, 0)\<close>
  selects the connection at the index that \<open>Intn\<close> draws; if that pointer resolves,
  the call appends one new hidden node with the previous node count as \<open>ID\<close> and
  the sigmoid activation, appends the two enabled connections from the selected
  \<open>From\<close> to the new node with weight 1 and from the new node to the selected
  \<open>To\<close> with the selected weight, and sets \<open>Disabled\<close> on the selected connection;
  every other connection object is as before. The selected connection may have been
  disabled already: the number of connections of the genome that were enabled and are
  now disabled is 1 if it was enabled and 0 if it was not.
\<close>

theorem Mutate_add_node:
  assumes ne: "ConnGenes g \<noteq> []"
    and selected: "selected = ConnGenes g ! (bits (r (length (ConnGenes g) + 1)) mod length (ConnGenes g))"
    and s: "getConn h selected = Some s"
    and newNode: "newNode = Some (length (nodeObjs h))"
  shows "\<exists>h'. Mutate aset g 0 1 0 h r =
           Inr (g\<lparr>NodeGenes := NodeGenes g @ [newNode],
                  ConnGenes := ConnGenes g @ [Some (length (connObjs h)), Some (Suc (length (connObjs h)))]\<rparr>,
                h', skip (length (ConnGenes g) + 3) r) \<and>
         nodeObjs h' = nodeObjs h @
           [\<lparr>ID = int (length (NodeGenes g)), Type = ''hidden'', Activation = aset ''sigmoid''\<rparr>] \<and>
         length (connObjs h') = length (connObjs h) + 2 \<and>
         getConn h' (Some (length (connObjs h))) =
           Some \<lparr>From = From s, To = newNode, Weight = 1, Disabled = False\<rparr> \<and>
         getConn h' (Some (Suc (length (connObjs h)))) =
           Some \<lparr>From = newNode, To = To s, Weight = Weight s, Disabled = False\<rparr> \<and>
         getConn h' selected = Some (s\<lparr>Disabled := True\<rparr>) \<and>
         (\<forall>p c. p \<noteq> selected \<and> getConn h p = Some c \<longrightarrow> getConn h' p = Some c) \<and>
         (distinct (ConnGenes g) \<longrightarrow> length (newlyDisabled h h' g) = (if Disabled s then 0 else 1))"
proof -
  define h1 where "h1 = h\<lparr>nodeObjs := nodeObjs h @
                       [\<lparr>ID = int (length (NodeGenes g)), Type = ''hidden'', Activation = aset ''sigmoid''\<rparr>],
                     connObjs := connObjs h @
                       [\<lparr>From = From s, To = newNode, Weight = 1, Disabled = False\<rparr>,
                        \<lparr>From = newNode, To = To s, Weight = Weight s, Disabled = False\<rparr>]\<rparr>"
  define h' where "h' = setConn h1 selected (s\<lparr>Disabled := True\<rparr>)"
  from s obtain a where a: "selected = Some a" "a < length (connObjs h)" "connObjs h ! a = s"
    using getConn_SomeD by blast
  have fire: "unit_of (skip (length (ConnGenes g)) r 0) < 1" by (rule unit_of_less_one)
  have sel': "getConn h (ConnGenes g ! (bits (skip (length (ConnGenes g)) r 1) mod length (ConnGenes g))) = Some s"
    using s selected by (simp add: skip_apply add.commute)
  have idx: "ConnGenes g ! (bits (skip (length (ConnGenes g)) r 1) mod length (ConnGenes g)) = selected"
    using selected by (simp add: skip_apply add.commute)
  have run: "Mutate aset g 0 1 0 h r =
           Inr (g\<lparr>NodeGenes := NodeGenes g @ [newNode],
                  ConnGenes := ConnGenes g @ [Some (length (connObjs h)), Some (Suc (length (connObjs h)))]\<rparr>,
                h', skip (length (ConnGenes g) + 3) r)"
  proof -
    have e3: "length (ConnGenes g) + 3 = Suc (Suc (Suc (length (ConnGenes g))))" by simp
    have "addNode aset 1 g h (skip (length (ConnGenes g)) r) =
           Inr (g\<lparr>NodeGenes := NodeGenes g @ [newNode],
                  ConnGenes := ConnGenes g @ [Some (length (connObjs h)), Some (Suc (length (connObjs h)))]\<rparr>,
                h', skip 2 (skip (length (ConnGenes g)) r))"
      using addNode_fires [OF ne fire sel'] unfolding idx by (simp add: h'_def h1_def newNode)
    then show ?thesis
      by (simp add: Mutate_def perturb_zero addConn_zero skip_skip e3)
  qed
  have nodes: "nodeObjs h' = nodeObjs h @
           [\<lparr>ID = int (length (NodeGenes g)), Type = ''hidden'', Activation = aset ''sigmoid''\<rparr>]"
    by (simp add: h'_def nodeObjs_setConn h1_def)
  have len: "length (connObjs h') = length (connObjs h) + 2"
    by (simp add: h'_def length_connObjs_setConn h1_def)
  have c1: "getConn h' (Some (length (connObjs h))) =
           Some \<lparr>From = From s, To = newNode, Weight = 1, Disabled = False\<rparr>"
    using a by (simp add: h'_def h1_def getConn_def setConn_def deref_def nth_append)
  have c2: "getConn h' (Some (Suc (length (connObjs h)))) =
           Some \<lparr>From = newNode, To = To s, Weight = Weight s, Disabled = False\<rparr>"
    using a by (simp add: h'_def h1_def getConn_def setConn_def deref_def nth_append)
  have s1: "getConn h1 selected = Some s"
    using a by (simp add: h1_def getConn_def deref_def nth_append)
  have dis: "getConn h' selected = Some (s\<lparr>Disabled := True\<rparr>)"
    unfolding h'_def using s1 by (rule getConn_setConn_same)
  have keep: "getConn h' p = Some c" if "p \<noteq> selected" "getConn h p = Some c" for p c
  proof -
    from that(2) obtain b where "p = Some b" "b < length (connObjs h)" "connObjs h ! b = c"
      using getConn_SomeD by blast
    then have "getConn h1 p = Some c"
      by (simp add: h1_def getConn_def deref_def nth_append)
    then show ?thesis using that(1) by (simp add: h'_def getConn_setConn_other)
  qed
  have count: "length (newlyDisabled h h' g) = (if Disabled s then 0 else 1)" if d: "distinct (ConnGenes g)"
  proof -
    have mem: "selected \<in> set (ConnGenes g)"
      using ne selected by simp
    have "enabledIn h p \<and> disabledIn h' p \<longleftrightarrow> p = selected \<and> \<not> Disabled s" for p
    proof (cases "p = selected")
      case True
      then show ?thesis using s dis by (simp add: enabledIn_def disabledIn_def)
    next
      case False
      show ?thesis
      proof (cases "getConn h p")
        case None
        then show ?thesis using False by (simp add: enabledIn_def)
      next
        case (Some c)
        then show ?thesis using False keep [OF False Some] by (simp add: enabledIn_def disabledIn_def)
      qed
    qed
    then have eq: "newlyDisabled h h' g = filter (\<lambda>p. p = selected \<and> \<not> Disabled s) (ConnGenes g)"
      by (simp add: newlyDisabled_def)
    show ?thesis
    proof (cases "Disabled s")
      case True
      then show ?thesis using eq by simp
    next
      case False
      then show ?thesis using eq length_filter_eq_one [OF d mem] by simp
    qed
  qed
  show ?thesis
    using run nodes len c1 c2 dis keep count by blast
qed

theorem Mutate_add_node_witness:
  "ConnGenes exGenomeA \<noteq> [] \<and>
   getConn exHeap (Some 2) = Some \<lparr>From = Some 0, To = Some 1, Weight = 5, Disabled = False\<rparr> \<and>
   (\<exists>h'. Mutate exAset exGenomeA 0 1 0 exHeap (skip 1 exRand) =
      Inr (exGenomeA\<lparr>NodeGenes := NodeGenes exGenomeA @ [Some 7],
                     ConnGenes := ConnGenes exGenomeA @ [Some 7, Some 8]\<rparr>, h', skip 7 exRand) \<and>
      getConn h' (Some 8) = Some \<lparr>From = Some 7, To = Some 1, Weight = 5, Disabled = False\<rparr> \<and>
      getConn h' (Some 2) = Some \<lparr>From = Some 0, To = Some 1, Weight = 5, Disabled = True\<rparr> \<and>
      length (newlyDisabled exHeap h' exGenomeA) = 1)"
proof -
  have ne: "ConnGenes exGenomeA \<noteq> []" by (simp add: exGenomeA_def)
  have sel: "Some 2 = ConnGenes exGenomeA !
      (bits (skip 1 exRand (length (ConnGenes exGenomeA) + 1)) mod length (ConnGenes exGenomeA))"
    by (simp add: exGenomeA_def exRand_def skip_def)
  have s: "getConn exHeap (Some 2) = Some \<lparr>From = Some 0, To = Some 1, Weight = 5, Disabled = False\<rparr>"
    by (simp add: exHeap_def getConn_def deref_def)
  have d: "distinct (ConnGenes exGenomeA)" by (simp add: exGenomeA_def)
  have nn: "Some 7 = Some (length (nodeObjs exHeap))" by (simp add: exHeap_def)
  have len: "length (connObjs exHeap) = 7" "length (ConnGenes exGenomeA) = 3"
    by (simp_all add: exHeap_def exGenomeA_def)
  from Mutate_add_node [where g = exGenomeA and selected = "Some 2" and r = "skip 1 exRand"
        and h = exHeap and newNode = "Some 7" and aset = exAset, OF ne sel s nn]
  obtain h' where
    "Mutate exAset exGenomeA 0 1 0 exHeap (skip 1 exRand) =
      Inr (exGenomeA\<lparr>NodeGenes := NodeGenes exGenomeA @ [Some 7],
             ConnGenes := ConnGenes exGenomeA @
               [Some (length (connObjs exHeap)), Some (Suc (length (connObjs exHeap)))]\<rparr>,
           h', skip (length (ConnGenes exGenomeA) + 3) (skip 1 exRand))"
    "getConn h' (Some (Suc (length (connObjs exHeap)))) =
       Some \<lparr>From = Some 7, To = To \<lparr>From = Some 0, To = Some 1, Weight = 5, Disabled = False\<rparr>,
          Weight = Weight \<lparr>From = Some 0, To = Some 1, Weight = 5, Disabled = False\<rparr>, Disabled = False\<rparr>"
    "getConn h' (Some 2) = Some (\<lparr>From = Some 0, To = Some 1, Weight = 5, Disabled = False\<rparr>\<lparr>Disabled := True\<rparr>)"
    "distinct (ConnGenes exGenomeA) \<longrightarrow> length (newlyDisabled exHeap h' exGenomeA) =
       (if Disabled \<lparr>From = Some 0, To = Some 1, Weight = 5, Disabled = False\<rparr> then 0 else 1)"
    by blast
  then show ?thesis
    using ne s d by (simp add: len skip_skip)
qed

lemma ex_Mutate_add_node:
  "Mutate exAset exGenomeA 0 1 0 exHeap exRand =
     Inr (\<lparr>GID = 1, NodeGenes = [Some 0, Some 1, Some 2, Some 7],
           ConnGenes = [Some 0, Some 1, Some 2, Some 7, Some 8]\<rparr>, exHeapSplit, skip 6 exRand)"
proof -
  have "addNode exAset 1 exGenomeA exHeap (skip 3 exRand) =
     Inr (\<lparr>GID = 1, NodeGenes = [Some 0, Some 1, Some 2, Some 7],
           ConnGenes = [Some 0, Some 1, Some 2, Some 7, Some 8]\<rparr>, exHeapSplit, skip 5 exRand)"
    by (simp add: addNode_def Float64_def Intn_def unit_of_def skip_skip
        NewNodeGene_def NewConnGene_def getConn_def deref_def setConn_def skip_apply
        exGenomeA_def exHeap_def exHeapSplit_def exRand_def exAset_def Let_def)
  moreover have "length (ConnGenes exGenomeA) = 3" by (simp add: exGenomeA_def)
  ultimately show ?thesis
    by (simp add: Mutate_def perturb_zero addConn_zero skip_skip)
qed

text \<open>With the draws of \<open>exRand\<close> the add-node step of genome A selects the
  connection 1\<rightarrow>2, which is disabled: a node and two connections are added, and no
  enabled connection becomes disabled.\<close>

theorem add_node_on_disabled_connection:
  "Mutate exAset exGenomeA 0 1 0 exHeap exRand =
     Inr (\<lparr>GID = 1, NodeGenes = [Some 0, Some 1, Some 2, Some 7],
           ConnGenes = [Some 0, Some 1, Some 2, Some 7, Some 8]\<rparr>, exHeapSplit, skip 6 exRand) \<and>
   Disabled (connObjs exHeap ! 1) \<and>
   newlyDisabled exHeap exHeapSplit exGenomeA = []"
proof -
  have "Disabled (connObjs exHeap ! 1)" by (simp add: exHeap_def)
  moreover have "newlyDisabled exHeap exHeapSplit exGenomeA = []"
    by (simp add: newlyDisabled_def enabledIn_def disabledIn_def getConn_def deref_def
        exGenomeA_def exHeap_def exHeapSplit_def)
  ultimately show ?thesis using ex_Mutate_add_node by simp
qed

section \<open>The ID-as-index invariant\<close>

lemma map_eq_upt_iff:
  "map f xs = map g [0..<length xs] \<longleftrightarrow> (\<forall>i<length xs. f (xs ! i) = g i)"
proof
  assume eq: "map f xs = map g [0..<length xs]"
  show "\<forall>i<length xs. f (xs ! i) = g i"
  proof (intro allI impI)
    fix i
    assume i: "i < length xs"
    from eq have "map f xs ! i = map g [0..<length xs] ! i" by (rule arg_cong)
    with i show "f (xs ! i) = g i" by simp
  qed
next
  assume "\<forall>i<length xs. f (xs ! i) = g i"
  then show "map f xs = map g [0..<length xs]"
    by (intro nth_equalityI) simp_all
qed

lemma idAsIndex_iff:
  "idAsIndex h g \<longleftrightarrow>
     (\<forall>i<length (NodeGenes g). \<exists>n. getNode h (NodeGenes g ! i) = Some n \<and> ID n = int i)"
proof -
  have eq: "map_option ID x = Some j \<longleftrightarrow> (\<exists>n. x = Some n \<and> ID n = j)" for x j
    by (cases x) auto
  show ?thesis
    unfolding idAsIndex_def map_eq_upt_iff by (simp only: eq)
qed

lemma idAsIndex_same_nodes:
  "nodeObjs h' = nodeObjs h \<Longrightarrow> NodeGenes g' = NodeGenes g \<Longrightarrow> idAsIndex h' g' = idAsIndex h g"
  by (simp add: idAsIndex_def getNode_def)

lemma idAsIndex_resolves: "idAsIndex h g \<Longrightarrow> p \<in> set (NodeGenes g) \<Longrightarrow> getNode h p \<noteq> None"
  by (auto simp: idAsIndex_iff in_set_conv_nth)

lemma idAsIndex_append:
  assumes "idAsIndex h g"
  shows "idAsIndex (h\<lparr>nodeObjs := nodeObjs h @ [\<lparr>ID = int (length (NodeGenes g)), Type = t, Activation = a\<rparr>]\<rparr>)
           (g\<lparr>NodeGenes := NodeGenes g @ [Some (length (nodeObjs h))]\<rparr>)"
  unfolding idAsIndex_iff
proof (intro allI impI)
  fix i
  let ?h = "h\<lparr>nodeObjs := nodeObjs h @ [\<lparr>ID = int (length (NodeGenes g)), Type = t, Activation = a\<rparr>]\<rparr>"
  let ?g = "g\<lparr>NodeGenes := NodeGenes g @ [Some (length (nodeObjs h))]\<rparr>"
  assume "i < length (NodeGenes ?g)"
  then consider "i < length (NodeGenes g)" | "i = length (NodeGenes g)" by fastforce
  then show "\<exists>n. getNode ?h (NodeGenes ?g ! i) = Some n \<and> ID n = int i"
  proof cases
    case 1
    with assms obtain n where n: "getNode h (NodeGenes g ! i) = Some n" "ID n = int i"
      by (auto simp: idAsIndex_iff)
    from getNode_append [OF n(1)] have "getNode ?h (NodeGenes g ! i) = Some n" .
    with 1 n(2) show ?thesis by (simp add: nth_append)
  next
    case 2
    then show ?thesis by (simp add: nth_append getNode_def deref_def)
  qed
qed

lemma addNode_idAsIndex:
  assumes "idAsIndex h g" and "addNode aset rate g h r = Inr (g', h', r')"
  shows "idAsIndex h' g'"
proof (cases "unit_of (r 0) < rate \<and> length (ConnGenes g) \<noteq> 0")
  case False
  with assms show ?thesis by (auto simp: addNode_def Float64_def)
next
  case True
  let ?sel = "ConnGenes g ! (bits (r 1) mod length (ConnGenes g))"
  let ?h1 = "h\<lparr>nodeObjs := nodeObjs h @
       [\<lparr>ID = int (length (NodeGenes g)), Type = ''hidden'', Activation = aset ''sigmoid''\<rparr>]\<rparr>"
  from True assms(2) obtain s where s: "getConn ?h1 ?sel = Some s"
    by (auto simp: addNode_def Float64_def Intn_def NewNodeGene_def skip_apply Let_def split: option.splits)
  then have sel: "getConn h ?sel = Some s" by simp
  from True have ne: "ConnGenes g \<noteq> []" and fire: "unit_of (r 0) < rate" by simp_all
  from addNode_fires [where aset = aset, OF ne fire sel] assms(2)
  have g': "g' = g\<lparr>NodeGenes := NodeGenes g @ [Some (length (nodeObjs h))],
            ConnGenes := ConnGenes g @ [Some (length (connObjs h)), Some (Suc (length (connObjs h)))]\<rparr>"
    and h': "nodeObjs h' = nodeObjs ?h1"
    by (auto simp: nodeObjs_setConn)
  have "idAsIndex ?h1 (g\<lparr>NodeGenes := NodeGenes g @ [Some (length (nodeObjs h))]\<rparr>)"
    using assms(1) by (rule idAsIndex_append)
  then show ?thesis
    using idAsIndex_same_nodes [OF h', of g' "g\<lparr>NodeGenes := NodeGenes g @ [Some (length (nodeObjs h))]\<rparr>"]
    by (simp add: g')
qed

lemma addConn_nodes:
  "addConn rate g h r = Inr (g', h', r') \<Longrightarrow> NodeGenes g' = NodeGenes g \<and> nodeObjs h' = nodeObjs h"
  by (auto simp: addConn_def Float64_def Intn_def NormFloat64_def NewConnGene_def Let_def
      split: if_splits sum.splits bool.splits)

lemma Mutate_idAsIndex:
  assumes "idAsIndex h g" and "Mutate aset g ratePerturb rateAddNode rateAddConn h r = Inr (g', h', r')"
  shows "idAsIndex h' g'"
proof -
  from assms(2) obtain h1 r1 g2 h2 r2 where
    p: "perturb ratePerturb (ConnGenes g) h r = Inr (h1, r1)" and
    n: "addNode aset rateAddNode g h1 r1 = Inr (g2, h2, r2)" and
    c: "addConn rateAddConn g2 h2 r2 = Inr (g', h', r')"
    by (auto simp: Mutate_def split: sum.splits)
  from perturb_frame [OF p] have "nodeObjs h1 = nodeObjs h" by simp
  then have "idAsIndex h1 g" using assms(1) idAsIndex_same_nodes by blast
  then have "idAsIndex h2 g2" using n by (rule addNode_idAsIndex)
  then show ?thesis using addConn_nodes [OF c] idAsIndex_same_nodes by blast
qed

section \<open>The loops of Crossover\<close>

lemma NodeGene_copy: "\<lparr>ID = ID n, Type = Type n, Activation = Activation n\<rparr> = (n::NodeGene)"
  by simp

lemma upt_shift_Cons: "[l..<l + Suc k] = l # [Suc l..<Suc l + k]"
  by (simp add: upt_conv_Cons)

lemma copyNodes_frame:
  "copyNodes ps h = Inr (qs, h1) \<Longrightarrow>
     qs = map Some [length (nodeObjs h)..<length (nodeObjs h) + length ps] \<and>
     connObjs h1 = connObjs h \<and>
     (\<exists>new. nodeObjs h1 = nodeObjs h @ new \<and> length new = length ps)"
proof (induction ps arbitrary: h qs h1)
  case Nil
  then show ?case by simp
next
  case (Cons p ps)
  from Cons.prems obtain n where n: "getNode h p = Some n"
    by (auto split: option.splits)
  define h' where "h' = h\<lparr>nodeObjs := nodeObjs h @ [n]\<rparr>"
  from Cons.prems n obtain qs' where
    run: "copyNodes ps h' = Inr (qs', h1)" and qs: "qs = Some (length (nodeObjs h)) # qs'"
    by (auto simp: NewNodeGene_def h'_def NodeGene_copy split: sum.splits)
  from Cons.IH [OF run] obtain new where
    a: "qs' = map Some [length (nodeObjs h')..<length (nodeObjs h') + length ps]" and
    b: "connObjs h1 = connObjs h'" and
    c: "nodeObjs h1 = nodeObjs h' @ new" "length new = length ps"
    by blast
  have "qs = map Some [length (nodeObjs h)..<length (nodeObjs h) + length (p # ps)]"
    using a qs upt_shift_Cons [of "length (nodeObjs h)" "length ps"] by (simp add: h'_def)
  moreover have "connObjs h1 = connObjs h" using b by (simp add: h'_def)
  moreover have "nodeObjs h1 = nodeObjs h @ (n # new) \<and> length (n # new) = length (p # ps)"
    using c by (simp add: h'_def)
  ultimately show ?case by blast
qed

lemma copyNodes_ok:
  "\<forall>p\<in>set ps. getNode h p \<noteq> None \<Longrightarrow>
     copyNodes ps h =
       Inr (map Some [length (nodeObjs h)..<length (nodeObjs h) + length ps],
            h\<lparr>nodeObjs := nodeObjs h @ map (\<lambda>p. the (getNode h p)) ps\<rparr>)"
proof (induction ps arbitrary: h)
  case Nil
  show ?case by simp
next
  case (Cons p ps)
  from Cons.prems obtain n where n: "getNode h p = Some n" by auto
  define h' where "h' = h\<lparr>nodeObjs := nodeObjs h @ [n]\<rparr>"
  have keep: "getNode h' q = getNode h q" if "q \<in> set ps" for q
  proof -
    from Cons.prems that obtain m where "getNode h q = Some m" by auto
    with getNode_append [OF this, of "[n]"] show ?thesis by (simp add: h'_def)
  qed
  then have "\<forall>q\<in>set ps. getNode h' q \<noteq> None" using Cons.prems by simp
  from Cons.IH [OF this] have
    "copyNodes ps h' =
       Inr (map Some [length (nodeObjs h')..<length (nodeObjs h') + length ps],
            h'\<lparr>nodeObjs := nodeObjs h' @ map (\<lambda>p. the (getNode h' p)) ps\<rparr>)" .
  moreover have "map (\<lambda>p. the (getNode h' p)) ps = map (\<lambda>p. the (getNode h p)) ps"
    using keep by simp
  ultimately show ?case
    using n upt_shift_Cons [of "length (nodeObjs h)" "length ps"]
    by (simp add: NewNodeGene_def h'_def NodeGene_copy)
qed

lemma copyNodes_resolved:
  assumes "\<forall>p\<in>set ps. p = None \<or> getNode h p \<noteq> None" and "copyNodes ps h = Inr res"
  shows "\<forall>p\<in>set ps. getNode h p \<noteq> None"
  using assms
proof (induction ps arbitrary: h res)
  case Nil
  show ?case by simp
next
  case (Cons p ps)
  from Cons.prems(2) obtain n where n: "getNode h p = Some n"
    by (auto split: option.splits)
  define h' where "h' = h\<lparr>nodeObjs := nodeObjs h @ [n]\<rparr>"
  from Cons.prems(2) n obtain res' where run: "copyNodes ps h' = Inr res'"
    by (auto simp: NewNodeGene_def h'_def NodeGene_copy split: sum.splits)
  have "\<forall>q\<in>set ps. q = None \<or> getNode h' q \<noteq> None"
  proof
    fix q assume "q \<in> set ps"
    with Cons.prems(1) consider "q = None" | m where "getNode h q = Some m" by auto
    then show "q = None \<or> getNode h' q \<noteq> None"
    proof cases
      case 1 then show ?thesis by simp
    next
      case 2
      from getNode_append [OF this, of "[n]"] show ?thesis by (simp add: h'_def)
    qed
  qed
  from Cons.IH [OF this run] have later: "\<forall>q\<in>set ps. getNode h' q \<noteq> None" .
  have "getNode h q \<noteq> None" if "q \<in> set ps" for q
  proof -
    from later that have "getNode h' q \<noteq> None" by simp
    then have "q \<noteq> None" by (cases q) (simp_all add: getNode_def deref_def)
    with Cons.prems(1) that show ?thesis by auto
  qed
  with n show ?case by simp
qed

lemma connKey_append_conns:
  "connKey h conn = Inr k \<Longrightarrow> connKey (h\<lparr>connObjs := connObjs h @ xs\<rparr>) conn = Inr k"
proof -
  assume a: "connKey h conn = Inr k"
  then obtain c where c: "getConn h conn = Some c"
    by (auto simp: connKey_def split: option.splits)
  from getConn_append [OF c, of xs] a c show ?thesis
    by (simp add: connKey_def split: option.splits)
qed

lemma connKey_append_nodes:
  "connKey h conn = Inr k \<Longrightarrow> connKey (h\<lparr>nodeObjs := nodeObjs h @ xs\<rparr>) conn = Inr k"
proof -
  assume a: "connKey h conn = Inr k"
  then obtain c nf nt where c: "getConn h conn = Some c" "getNode h (From c) = Some nf"
    "getNode h (To c) = Some nt"
    by (auto simp: connKey_def split: option.splits)
  from getNode_append [OF c(2), of xs] getNode_append [OF c(3), of xs] a c show ?thesis
    by (simp add: connKey_def)
qed

lemma childConn_append_conns:
  "childConn ns h conn = Some x \<Longrightarrow> childConn ns (h\<lparr>connObjs := connObjs h @ xs\<rparr>) conn = Some x"
proof -
  assume a: "childConn ns h conn = Some x"
  then obtain c k where c: "getConn h conn = Some c" "connKey h conn = Inr k"
    by (auto simp: childConn_def split: option.splits sum.splits)
  from getConn_append [OF c(1), of xs] connKey_append_conns [OF c(2), of xs] a c show ?thesis
    by (simp add: childConn_def)
qed

lemma childConn_append_nodes:
  "childConn ns h conn = Some x \<Longrightarrow> childConn ns (h\<lparr>nodeObjs := nodeObjs h @ xs\<rparr>) conn = Some x"
proof -
  assume a: "childConn ns h conn = Some x"
  then obtain c k where c: "getConn h conn = Some c" "connKey h conn = Inr k"
    by (auto simp: childConn_def split: option.splits sum.splits)
  from connKey_append_nodes [OF c(2), of xs] a c show ?thesis
    by (simp add: childConn_def)
qed

text \<open>One iteration of the last loop, in terms of \<open>childConn\<close>.\<close>

lemma copyConns_Cons:
  "connKey h conn = Inr k \<Longrightarrow>
   copyConns ns (conn # conns) h =
     (case childConn ns h conn of
        None \<Rightarrow> Inl IndexOutOfRange
      | Some x \<Rightarrow>
          (case copyConns ns conns (h\<lparr>connObjs := connObjs h @ [x]\<rparr>) of
             Inl e \<Rightarrow> Inl e
           | Inr (qs, h2) \<Rightarrow> Inr (Some (length (connObjs h)) # qs, h2)))"
  by (auto simp: connKey_def childConn_def index_def Let_def split: option.splits sum.splits)


lemma childConn_SomeD:
  "childConn ns h conn = Some x \<Longrightarrow>
     \<exists>c a b. getConn h conn = Some c \<and> connKey h conn = Inr (a, b) \<and>
       0 \<le> a \<and> a < int (length ns) \<and> 0 \<le> b \<and> b < int (length ns) \<and>
       x = \<lparr>From = ns ! nat a, To = ns ! nat b, Weight = Weight c, Disabled = Disabled c\<rparr>"
  by (auto simp: childConn_def index_def split: option.splits sum.splits if_splits)

lemma childConn_None_iff:
  "connKey h conn = Inr (a, b) \<Longrightarrow>
     childConn ns h conn = None \<longleftrightarrow> \<not> (0 \<le> a \<and> a < int (length ns) \<and> 0 \<le> b \<and> b < int (length ns))"
  by (auto simp: childConn_def connKey_def index_def split: option.splits sum.splits if_splits)

lemma copyConns_head:
  "copyConns ns (conn # conns) h = Inr res \<Longrightarrow> \<exists>k. connKey h conn = Inr k"
  by (auto simp: connKey_def split: option.splits sum.splits)

lemma copyConns_ok:
  "\<forall>c\<in>set conns. childConn ns h c \<noteq> None \<Longrightarrow>
     copyConns ns conns h =
       Inr (map Some [length (connObjs h)..<length (connObjs h) + length conns],
            h\<lparr>connObjs := connObjs h @ map (\<lambda>c. the (childConn ns h c)) conns\<rparr>)"
proof (induction conns arbitrary: h)
  case Nil
  show ?case by simp
next
  case (Cons conn conns)
  from Cons.prems obtain x where x: "childConn ns h conn = Some x" by auto
  then obtain k where k: "connKey h conn = Inr k" using childConn_SomeD by blast
  define h' where "h' = h\<lparr>connObjs := connObjs h @ [x]\<rparr>"
  have keep: "childConn ns h' c = childConn ns h c" if "c \<in> set conns" for c
  proof -
    from Cons.prems that obtain y where "childConn ns h c = Some y" by auto
    with childConn_append_conns [OF this, of "[x]"] show ?thesis by (simp add: h'_def)
  qed
  then have "\<forall>c\<in>set conns. childConn ns h' c \<noteq> None" using Cons.prems by simp
  from Cons.IH [OF this] have
    "copyConns ns conns h' =
       Inr (map Some [length (connObjs h')..<length (connObjs h') + length conns],
            h'\<lparr>connObjs := connObjs h' @ map (\<lambda>c. the (childConn ns h' c)) conns\<rparr>)" .
  moreover have "map (\<lambda>c. the (childConn ns h' c)) conns = map (\<lambda>c. the (childConn ns h c)) conns"
    using keep by simp
  ultimately show ?case
    using x upt_shift_Cons [of "length (connObjs h)" "length conns"]
    by (simp add: copyConns_Cons [OF k] h'_def del: copyConns.simps)
qed

lemma copyConns_out_of_range:
  assumes "\<forall>c\<in>set conns. \<exists>k. connKey h c = Inr k" and "\<exists>c\<in>set conns. childConn ns h c = None"
  shows "copyConns ns conns h = Inl IndexOutOfRange"
  using assms
proof (induction conns arbitrary: h)
  case Nil
  then show ?case by simp
next
  case (Cons conn conns)
  from Cons.prems(1) obtain k where k: "connKey h conn = Inr k" by auto
  show ?case
  proof (cases "childConn ns h conn")
    case None
    then show ?thesis by (simp add: copyConns_Cons [OF k] del: copyConns.simps)
  next
    case (Some x)
    define h' where "h' = h\<lparr>connObjs := connObjs h @ [x]\<rparr>"
    have keys: "\<forall>c\<in>set conns. \<exists>k. connKey h' c = Inr k"
      using Cons.prems(1) connKey_append_conns unfolding h'_def by fastforce
    from Cons.prems(2) Some obtain c where c: "c \<in> set conns" "childConn ns h c = None" by auto
    from Cons.prems(1) c(1) obtain a b where ab: "connKey h c = Inr (a, b)" by fastforce
    from connKey_append_conns [OF ab, of "[x]"] have "connKey h' c = Inr (a, b)" by (simp add: h'_def)
    with c(2) ab have "childConn ns h' c = None" by (simp add: childConn_None_iff)
    with c(1) have "\<exists>c\<in>set conns. childConn ns h' c = None" by blast
    from Cons.IH [OF keys this] show ?thesis
      using Some by (simp add: copyConns_Cons [OF k] h'_def del: copyConns.simps)
  qed
qed

lemma copyConns_frame:
  "copyConns ns conns h = Inr (qs, h1) \<Longrightarrow>
     qs = map Some [length (connObjs h)..<length (connObjs h) + length conns] \<and>
     nodeObjs h1 = nodeObjs h \<and>
     (\<exists>new. connObjs h1 = connObjs h @ new \<and> length new = length conns \<and>
        (\<forall>x\<in>set new. From x \<in> set ns \<and> To x \<in> set ns))"
proof (induction conns arbitrary: h qs h1)
  case Nil
  then show ?case by simp
next
  case (Cons conn conns)
  from copyConns_head [OF Cons.prems] obtain k where k: "connKey h conn = Inr k" by blast
  from Cons.prems obtain x where x: "childConn ns h conn = Some x"
    by (cases "childConn ns h conn") (simp_all add: copyConns_Cons [OF k] del: copyConns.simps)
  define h' where "h' = h\<lparr>connObjs := connObjs h @ [x]\<rparr>"
  from Cons.prems x obtain qs' where
    run: "copyConns ns conns h' = Inr (qs', h1)" and qs: "qs = Some (length (connObjs h)) # qs'"
    by (auto simp: copyConns_Cons [OF k] h'_def simp del: copyConns.simps split: sum.splits)
  from Cons.IH [OF run] obtain new where
    a: "qs' = map Some [length (connObjs h')..<length (connObjs h') + length conns]" and
    b: "nodeObjs h1 = nodeObjs h'" and
    c: "connObjs h1 = connObjs h' @ new" "length new = length conns"
       "\<forall>x\<in>set new. From x \<in> set ns \<and> To x \<in> set ns"
    by blast
  from childConn_SomeD [OF x] have ends: "From x \<in> set ns \<and> To x \<in> set ns"
    by (auto simp: nat_less_iff)
  have "qs = map Some [length (connObjs h)..<length (connObjs h) + length (conn # conns)]"
    using a qs upt_shift_Cons [of "length (connObjs h)" "length conns"] by (simp add: h'_def)
  moreover have "nodeObjs h1 = nodeObjs h" using b by (simp add: h'_def)
  moreover have "connObjs h1 = connObjs h @ (x # new) \<and> length (x # new) = length (conn # conns) \<and>
        (\<forall>y\<in>set (x # new). From y \<in> set ns \<and> To y \<in> set ns)"
    using c ends by (simp add: h'_def)
  ultimately show ?case by blast
qed

section \<open>The map of innovations\<close>

lemma rangeOrder_set: "set (rangeOrder sched xs) = set xs"
proof (induction sched xs rule: rangeOrder.induct)
  case (3 k sched x xs)
  let ?ys = "x # xs"
  let ?i = "k mod length ?ys"
  have i: "?i < length ?ys" by simp
  have "set ?ys = set (take ?i ?ys @ ?ys ! ?i # drop (Suc ?i) ?ys)"
    using id_take_nth_drop [OF i] by simp
  then have "set ?ys = insert (?ys ! ?i) (set (take ?i ?ys @ drop (Suc ?i) ?ys))" by simp
  moreover have "set (rangeOrder sched (take ?i ?ys @ drop (Suc ?i) ?ys)) =
      set (take ?i ?ys @ drop (Suc ?i) ?ys)"
    using "3.IH" [of ?i] by simp
  ultimately show ?case by (simp add: Let_def del: set_append take_Cons' drop_Suc_Cons nth_Cons')
qed simp_all

lemma rangeOrder_length: "length (rangeOrder sched xs) = length xs"
proof (induction sched xs rule: rangeOrder.induct)
  case (3 k sched x xs)
  let ?ys = "x # xs"
  let ?i = "k mod length ?ys"
  have i: "?i < length ?ys" by simp
  have "length (rangeOrder sched (take ?i ?ys @ drop (Suc ?i) ?ys)) =
      length (take ?i ?ys @ drop (Suc ?i) ?ys)"
    using "3.IH" [of ?i] by simp
  moreover have "length (take ?i ?ys @ drop (Suc ?i) ?ys) = length xs"
    using i by (simp del: take_Cons' drop_Suc_Cons) 
  ultimately show ?case by (simp add: Let_def del: take_Cons' drop_Suc_Cons nth_Cons')
qed simp_all

text \<open>Every order of a list without repetitions is the order of some schedule.\<close>

lemma set_without_nth:
  assumes "distinct xs" and "i < length xs"
  shows "set (take i xs @ drop (Suc i) xs) = set xs - {xs ! i}"
    and "distinct (take i xs @ drop (Suc i) xs)"
proof -
  from assms(2) have split: "xs = take i xs @ xs ! i # drop (Suc i) xs" by (rule id_take_nth_drop)
  with assms(1) have d: "distinct (take i xs @ xs ! i # drop (Suc i) xs)" by simp
  then show "distinct (take i xs @ drop (Suc i) xs)" by simp
  from d have "xs ! i \<notin> set (take i xs @ drop (Suc i) xs)" by simp
  moreover have "set xs = insert (xs ! i) (set (take i xs @ drop (Suc i) xs))"
    by (subst split) simp
  ultimately show "set (take i xs @ drop (Suc i) xs) = set xs - {xs ! i}" by simp
qed

lemma rangeOrder_any_order:
  "distinct xs \<Longrightarrow> distinct ys \<Longrightarrow> set ys = set xs \<Longrightarrow> \<exists>sched. rangeOrder sched xs = ys"
proof (induction ys arbitrary: xs)
  case Nil
  then have "xs = []" by simp
  then show ?case by simp
next
  case (Cons y ys)
  from Cons.prems(3) have "y \<in> set xs" by auto
  then obtain i where i: "i < length xs" "xs ! i = y" by (auto simp: in_set_conv_nth)
  let ?xs = "take i xs @ drop (Suc i) xs"
  from set_without_nth [OF Cons.prems(1) i(1)] i(2) have
    s: "set ?xs = set xs - {y}" and d: "distinct ?xs" by simp_all
  from Cons.prems(2,3) have "set ys = set xs - {y}" by auto
  with s have "set ys = set ?xs" by simp
  moreover from Cons.prems(2) have "distinct ys" by simp
  ultimately obtain sched where sched: "rangeOrder sched ?xs = ys"
    using Cons.IH [OF d] by blast
  from i(1) obtain x xs' where xs: "xs = x # xs'" by (cases xs) auto
  from i(1) have "i mod length xs = i" by simp
  then have "rangeOrder (i # sched) xs = xs ! i # rangeOrder sched ?xs"
    unfolding xs by (simp add: Let_def del: take_Cons' drop_Suc_Cons nth_Cons')
  with sched i(2) show ?case by auto
qed

lemma map_of_mapPut: "map_of (mapPut k v m) = (map_of m)(k \<mapsto> v)"
  by (induction m) (auto simp: fun_eq_iff)

lemma keys_mapPut: "fst ` set (mapPut k v m) = insert k (fst ` set m)"
  by (simp add: dom_map_of_conv_image_fst [symmetric] map_of_mapPut)

lemma set_mapPut: "set (mapPut k v m) \<subseteq> insert (k, v) (set m)"
  by (induction m) (auto split: if_splits)

lemma distinct_mapPut: "distinct (map fst m) \<Longrightarrow> distinct (map fst (mapPut k v m))"
proof (induction m)
  case Nil
  show ?case by simp
next
  case (Cons e m)
  obtain k' v' where e: "e = (k', v')" by (cases e)
  show ?case
  proof (cases "k' = k")
    case True
    with Cons.prems e show ?thesis by simp
  next
    case False
    have "fst ` set (mapPut k v m) = insert k (fst ` set m)" by (rule keys_mapPut)
    with Cons False e show ?thesis by auto
  qed
qed

lemma mapPut_same: "map_of m k = Some v \<Longrightarrow> mapPut k v m = m"
  by (induction m) (auto split: if_splits)

lemma map_of_distinct_set:
  "distinct (map fst m) \<Longrightarrow> (k, v) \<in> set m \<longleftrightarrow> map_of m k = Some v"
  by (auto dest: map_of_SomeD)


lemma connKey_nonnil: "connKey h conn = Inr k \<Longrightarrow> conn \<noteq> None"
  by (cases conn) (simp_all add: connKey_def getConn_def deref_def)

lemma recordAll_ok:
  "\<forall>c\<in>set conns. \<exists>k. connKey h c = Inr k \<Longrightarrow> \<exists>m'. recordAll h conns m = Inr m'"
  by (induction conns arbitrary: m) auto

lemma recordAll_keys:
  "recordAll h conns m = Inr m' \<Longrightarrow> \<forall>c\<in>set conns. \<exists>k. connKey h c = Inr k"
  by (induction conns arbitrary: m) (auto split: sum.splits)

lemma recordAll_inv:
  "recordAll h conns m = Inr m' \<Longrightarrow> distinct (map fst m) \<Longrightarrow>
     \<forall>e\<in>set m. connKey h (snd e) = Inr (fst e) \<Longrightarrow>
     distinct (map fst m') \<and> (\<forall>e\<in>set m'. connKey h (snd e) = Inr (fst e))"
proof (induction conns arbitrary: m)
  case Nil
  then show ?case by simp
next
  case (Cons conn conns)
  from Cons.prems(1) obtain k where k: "connKey h conn = Inr k" and
    run: "recordAll h conns (mapPut k conn m) = Inr m'"
    by (auto split: sum.splits)
  have "distinct (map fst (mapPut k conn m))" using Cons.prems(2) by (rule distinct_mapPut)
  moreover have "\<forall>e\<in>set (mapPut k conn m). connKey h (snd e) = Inr (fst e)"
    using set_mapPut [of k conn m] Cons.prems(3) k by auto
  ultimately show ?case using Cons.IH [OF run] by blast
qed

lemma recordAll_untouched:
  "recordAll h conns m = Inr m' \<Longrightarrow> Inr k \<notin> connKey h ` set conns \<Longrightarrow> map_of m' k = map_of m k"
proof (induction conns arbitrary: m)
  case Nil
  then show ?case by simp
next
  case (Cons conn conns)
  from Cons.prems(1) obtain k' where k': "connKey h conn = Inr k'" and
    run: "recordAll h conns (mapPut k' conn m) = Inr m'"
    by (auto split: sum.splits)
  from Cons.prems(2) k' have ne: "k' \<noteq> k" and rest: "Inr k \<notin> connKey h ` set conns"
    by auto
  from Cons.IH [OF run rest] ne show ?case by (simp add: map_of_mapPut)
qed

lemma recordAll_recorded:
  "recordAll h conns m = Inr m' \<Longrightarrow> distinct (map (connKey h) conns) \<Longrightarrow>
     c \<in> set conns \<Longrightarrow> connKey h c = Inr k \<Longrightarrow> map_of m' k = Some c"
proof (induction conns arbitrary: m)
  case Nil
  then show ?case by simp
next
  case (Cons conn conns)
  from Cons.prems(1) obtain k' where k': "connKey h conn = Inr k'" and
    run: "recordAll h conns (mapPut k' conn m) = Inr m'"
    by (auto split: sum.splits)
  from Cons.prems(2) have fresh: "connKey h conn \<notin> connKey h ` set conns" and
    d: "distinct (map (connKey h) conns)" by auto
  show ?case
  proof (cases "c = conn")
    case True
    with Cons.prems(4) k' have "k' = k" by simp
    with fresh k' have "Inr k \<notin> connKey h ` set conns" by simp
    from recordAll_untouched [OF run this] True \<open>k' = k\<close> show ?thesis
      by (simp add: map_of_mapPut)
  next
    case False
    with Cons.prems(3) have "c \<in> set conns" by simp
    from Cons.IH [OF run d this Cons.prems(4)] show ?thesis .
  qed
qed

lemma mapGet_None_iff:
  "None \<notin> snd ` set m \<Longrightarrow> mapGet m k = None \<longleftrightarrow> map_of m k = None"
proof -
  assume a: "None \<notin> snd ` set m"
  show ?thesis
  proof (cases "map_of m k")
    case None
    then show ?thesis by (simp add: mapGet_def)
  next
    case (Some p)
    then have "(k, p) \<in> set m" by (rule map_of_SomeD)
    then have "p \<in> snd ` set m" by force
    with a have "p \<noteq> None" by metis
    with Some show ?thesis by (simp add: mapGet_def)
  qed
qed

lemma nonnil_mapPut:
  assumes "None \<notin> snd ` set m" and "conn \<noteq> None"
  shows "None \<notin> snd ` set (mapPut k conn m)"
proof
  assume "None \<in> snd ` set (mapPut k conn m)"
  then obtain k' where "(k', None) \<in> set (mapPut k conn m)" by force
  with set_mapPut [of k conn m] have "(k', None) = (k, conn) \<or> (k', None) \<in> set m" by blast
  with assms show False by force
qed

text \<open>One iteration of the second loop: the map after it is the map before it, or has
  the gene of \<open>g1\<close> put under its key.\<close>

lemma alignAll_step:
  assumes "alignAll h (conn # conns) m r = Inr (m', r')"
  obtains k m1 r1 where "connKey h conn = Inr k" "alignAll h conns m1 r1 = Inr (m', r')"
    "m1 = m \<and> mapGet m k \<noteq> None \<and> \<not> unit_of (r 0) < 1 / 2 \<and> r1 = skip 1 r \<or>
     m1 = mapPut k conn m \<and> (if mapGet m k \<noteq> None then unit_of (r 0) < 1 / 2 \<and> r1 = skip 1 r else r1 = r)"
proof -
  from assms obtain k where k: "connKey h conn = Inr k" by (auto split: sum.splits)
  show thesis
  proof (cases "mapGet m k \<noteq> None")
    case True
    show thesis
    proof (cases "unit_of (r 0) < 1 / 2")
      case c: True
      with assms k True have "alignAll h conns (mapPut k conn m) (skip 1 r) = Inr (m', r')"
        by (simp add: Float64_def)
      with k True c show thesis by (intro that [of k "mapPut k conn m" "skip 1 r"]) simp_all
    next
      case c: False
      with assms k True have "alignAll h conns m (skip 1 r) = Inr (m', r')"
        by (simp add: Float64_def)
      with k True c show thesis by (intro that [of k m "skip 1 r"]) simp_all
    qed
  next
    case False
    with assms k have "alignAll h conns (mapPut k conn m) r = Inr (m', r')" by simp
    with k False show thesis by (intro that [of k "mapPut k conn m" r]) simp_all
  qed
qed

lemma alignAll_step_kept:
  assumes "alignAll h (conn # conns) m r = Inr (m', r')"
  obtains k m1 r1 where "connKey h conn = Inr k" "alignAll h conns m1 r1 = Inr (m', r')"
    "m1 = m \<and> mapGet m k \<noteq> None \<or> m1 = mapPut k conn m"
proof -
  from assms obtain k m1 r1 where a: "connKey h conn = Inr k" "alignAll h conns m1 r1 = Inr (m', r')"
    "m1 = m \<and> mapGet m k \<noteq> None \<and> \<not> unit_of (r 0) < 1 / 2 \<and> r1 = skip 1 r \<or>
     m1 = mapPut k conn m \<and> (if mapGet m k \<noteq> None then unit_of (r 0) < 1 / 2 \<and> r1 = skip 1 r else r1 = r)"
    by (rule alignAll_step)
  from a(3) have "m1 = m \<and> mapGet m k \<noteq> None \<or> m1 = mapPut k conn m"
    by (elim disjE conjE) simp_all
  with a(1,2) show thesis by (rule that)
qed

lemma alignAll_step_map:
  assumes "alignAll h (conn # conns) m r = Inr (m', r')"
  obtains k m1 r1 where "connKey h conn = Inr k" "alignAll h conns m1 r1 = Inr (m', r')"
    "m1 = m \<or> m1 = mapPut k conn m"
proof -
  from assms obtain k m1 r1 where a: "connKey h conn = Inr k" "alignAll h conns m1 r1 = Inr (m', r')"
    "m1 = m \<and> mapGet m k \<noteq> None \<or> m1 = mapPut k conn m"
    by (rule alignAll_step_kept)
  from a(3) have "m1 = m \<or> m1 = mapPut k conn m"
    by (elim disjE conjE) simp_all
  with a(1,2) show thesis by (rule that)
qed

lemma alignAll_ok:
  "\<forall>c\<in>set conns. \<exists>k. connKey h c = Inr k \<Longrightarrow> \<exists>m' r'. alignAll h conns m r = Inr (m', r')"
  by (induction conns arbitrary: m r) (auto simp: Float64_def)

lemma alignAll_keys:
  "alignAll h conns m r = Inr (m', r') \<Longrightarrow> \<forall>c\<in>set conns. \<exists>k. connKey h c = Inr k"
proof (induction conns arbitrary: m r)
  case Nil
  show ?case by simp
next
  case (Cons conn conns)
  from Cons.prems obtain k m1 r1 where "connKey h conn = Inr k" "alignAll h conns m1 r1 = Inr (m', r')"
    by (rule alignAll_step_map)
  with Cons.IH show ?case by auto
qed

lemma alignAll_inv:
  "alignAll h conns m r = Inr (m', r') \<Longrightarrow> distinct (map fst m) \<Longrightarrow>
     \<forall>e\<in>set m. connKey h (snd e) = Inr (fst e) \<Longrightarrow>
     distinct (map fst m') \<and> (\<forall>e\<in>set m'. connKey h (snd e) = Inr (fst e))"
proof (induction conns arbitrary: m r)
  case Nil
  then show ?case by simp
next
  case (Cons conn conns)
  from Cons.prems(1) obtain k m1 r1 where k: "connKey h conn = Inr k" and
    run: "alignAll h conns m1 r1 = Inr (m', r')" and m1: "m1 = m \<or> m1 = mapPut k conn m"
    by (rule alignAll_step_map)
  have "distinct (map fst m1)"
  proof (cases "m1 = m")
    case True
    with Cons.prems(2) show ?thesis by simp
  next
    case False
    with m1 have "m1 = mapPut k conn m" by simp
    with distinct_mapPut [OF Cons.prems(2)] show ?thesis by simp
  qed
  moreover have "\<forall>e\<in>set m1. connKey h (snd e) = Inr (fst e)"
  proof
    fix e
    assume "e \<in> set m1"
    with m1 set_mapPut [of k conn m] have "e = (k, conn) \<or> e \<in> set m" by blast
    then show "connKey h (snd e) = Inr (fst e)"
    proof
      assume "e = (k, conn)"
      with k show ?thesis by simp
    next
      assume "e \<in> set m"
      with Cons.prems(3) show ?thesis by simp
    qed
  qed
  ultimately show ?case by (rule Cons.IH [OF run])
qed

lemma alignAll_untouched:
  "alignAll h conns m r = Inr (m', r') \<Longrightarrow> Inr k \<notin> connKey h ` set conns \<Longrightarrow>
     map_of m' k = map_of m k"
proof (induction conns arbitrary: m r)
  case Nil
  then show ?case by simp
next
  case (Cons conn conns)
  from Cons.prems(1) obtain k' m1 r1 where k': "connKey h conn = Inr k'" and
    run: "alignAll h conns m1 r1 = Inr (m', r')" and m1: "m1 = m \<or> m1 = mapPut k' conn m"
    by (rule alignAll_step_map)
  from Cons.prems(2) k' have ne: "k' \<noteq> k" and rest: "Inr k \<notin> connKey h ` set conns"
    by auto
  from m1 ne have "map_of m1 k = map_of m k" by (auto simp: map_of_mapPut)
  with Cons.IH [OF run rest] show ?case by simp
qed

lemma alignAll_choice:
  "alignAll h conns m r = Inr (m', r') \<Longrightarrow>
     map_of m' k = map_of m k \<or> (\<exists>c\<in>set conns. connKey h c = Inr k \<and> map_of m' k = Some c)"
proof (induction conns arbitrary: m r)
  case Nil
  then show ?case by simp
next
  case (Cons conn conns)
  from Cons.prems(1) obtain k' m1 r1 where k': "connKey h conn = Inr k'" and
    run: "alignAll h conns m1 r1 = Inr (m', r')" and m1: "m1 = m \<or> m1 = mapPut k' conn m"
    by (rule alignAll_step_map)
  from Cons.IH [OF run] consider "map_of m' k = map_of m1 k"
    | c where "c \<in> set conns" "connKey h c = Inr k" "map_of m' k = Some c" by blast
  then show ?case
  proof cases
    case 1
    show ?thesis
    proof (cases "m1 = mapPut k' conn m \<and> k' = k")
      case True
      with 1 k' show ?thesis by (auto simp: map_of_mapPut)
    next
      case False
      with m1 have "map_of m1 k = map_of m k" by (auto simp: map_of_mapPut)
      with 1 show ?thesis by simp
    qed
  next
    case 2
    then show ?thesis by auto
  qed
qed

lemma alignAll_inserted:
  "alignAll h conns m r = Inr (m', r') \<Longrightarrow> None \<notin> snd ` set m \<Longrightarrow> map_of m k = None \<Longrightarrow>
     distinct (map (connKey h) conns) \<Longrightarrow> c \<in> set conns \<Longrightarrow> connKey h c = Inr k \<Longrightarrow>
     map_of m' k = Some c"
proof (induction conns arbitrary: m r)
  case Nil
  then show ?case by simp
next
  case (Cons conn conns)
  from Cons.prems(1) obtain k' m1 r1 where k': "connKey h conn = Inr k'" and
    run: "alignAll h conns m1 r1 = Inr (m', r')" and
    m1: "m1 = m \<and> mapGet m k' \<noteq> None \<or> m1 = mapPut k' conn m"
    by (rule alignAll_step_kept)
  from Cons.prems(4) have fresh: "connKey h conn \<notin> connKey h ` set conns" and
    d: "distinct (map (connKey h) conns)" by auto
  have nn: "None \<notin> snd ` set m1"
    using m1 Cons.prems(2) nonnil_mapPut [OF Cons.prems(2) connKey_nonnil [OF k']] by blast
  show ?case
  proof (cases "c = conn")
    case True
    with Cons.prems(6) k' have kk: "k' = k" by simp
    with Cons.prems(2,3) have "mapGet m k' = None" by (simp add: mapGet_None_iff)
    with m1 have "m1 = mapPut k' conn m" by blast
    moreover from fresh k' kk have "Inr k \<notin> connKey h ` set conns" by simp
    from alignAll_untouched [OF run this] have "map_of m' k = map_of m1 k" .
    ultimately show ?thesis using kk True by (simp add: map_of_mapPut)
  next
    case False
    with Cons.prems(5) have mem: "c \<in> set conns" by simp
    then have "connKey h c \<noteq> connKey h conn" using fresh by (metis imageI)
    with Cons.prems(6) k' have "k' \<noteq> k" by auto
    with m1 Cons.prems(3) have "map_of m1 k = None" by (auto simp: map_of_mapPut)
    from Cons.IH [OF run nn this d mem Cons.prems(6)] show ?thesis .
  qed
qed

lemma alignAll_keep_first:
  "alignAll h conns m r = Inr (m', r') \<Longrightarrow> \<forall>i. 1 / 2 \<le> unit_of (r i) \<Longrightarrow>
     None \<notin> snd ` set m \<Longrightarrow> map_of m k = Some v \<Longrightarrow> map_of m' k = Some v"
proof (induction conns arbitrary: m r)
  case Nil
  then show ?case by simp
next
  case (Cons conn conns)
  from Cons.prems(1) obtain k' m1 r1 where k': "connKey h conn = Inr k'" and
    run: "alignAll h conns m1 r1 = Inr (m', r')" and
    m1: "m1 = m \<and> mapGet m k' \<noteq> None \<and> \<not> unit_of (r 0) < 1 / 2 \<and> r1 = skip 1 r \<or>
     m1 = mapPut k' conn m \<and> (if mapGet m k' \<noteq> None then unit_of (r 0) < 1 / 2 \<and> r1 = skip 1 r else r1 = r)"
    by (rule alignAll_step)
  from Cons.prems(2) have high: "\<not> unit_of (r 0) < 1 / 2" by (simp add: not_less)
  have coins: "\<forall>i. 1 / 2 \<le> unit_of (r1 i)"
    using m1 Cons.prems(2) by (auto simp: skip_apply split: if_splits)
  have nn: "None \<notin> snd ` set m1"
    using m1 Cons.prems(3) nonnil_mapPut [OF Cons.prems(3) connKey_nonnil [OF k']] by blast
  have "map_of m1 k = Some v"
  proof (cases "m1 = m")
    case True
    with Cons.prems(4) show ?thesis by simp
  next
    case False
    with m1 high have put: "m1 = mapPut k' conn m" and absent: "mapGet m k' = None"
      by (auto split: if_splits)
    from absent Cons.prems(3) have "map_of m k' = None" by (simp add: mapGet_None_iff)
    with Cons.prems(4) have "k' \<noteq> k" by auto
    with put Cons.prems(4) show ?thesis by (simp add: map_of_mapPut)
  qed
  from Cons.IH [OF run coins nn this] show ?case .
qed

section \<open>Crossover as the sequence of its four loops\<close>

lemma Crossover_InrD:
  assumes "Crossover gid g0 g1 h r sched = Inr (child, h', r')"
  obtains m0 m ns h1 cs where
    "recordAll h (ConnGenes g0) [] = Inr m0"
    "alignAll h (ConnGenes g1) m0 r = Inr (m, r')"
    "copyNodes (NodeGenes (largerParent g0 g1)) h = Inr (ns, h1)"
    "copyConns ns (map snd (rangeOrder sched m)) h1 = Inr (cs, h')"
    "child = \<lparr>GID = gid, NodeGenes = ns, ConnGenes = cs\<rparr>"
  using assms
  by (auto simp: Crossover_def largerParent_def Let_def split: sum.splits)

lemma Crossover_InrI:
  assumes "recordAll h (ConnGenes g0) [] = Inr m0"
    "alignAll h (ConnGenes g1) m0 r = Inr (m, r')"
    "copyNodes (NodeGenes (largerParent g0 g1)) h = Inr (ns, h1)"
    "copyConns ns (map snd (rangeOrder sched m)) h1 = Inr (cs, h')"
  shows "Crossover gid g0 g1 h r sched = Inr (\<lparr>GID = gid, NodeGenes = ns, ConnGenes = cs\<rparr>, h', r')"
  using assms by (simp add: Crossover_def largerParent_def Let_def)

lemma copied_node_lookup:
  assumes "nodeObjs h' = nodeObjs h @ map (\<lambda>p. the (getNode h p)) ps" and "i < length ps"
  shows "getNode h' (map Some [length (nodeObjs h)..<length (nodeObjs h) + length ps] ! i) =
           Some (the (getNode h (ps ! i)))"
  using assms by (simp add: getNode_def deref_def nth_append)

lemma Crossover_idAsIndex:
  assumes a0: "idAsIndex h g0" and a1: "idAsIndex h g1"
    and run: "Crossover gid g0 g1 h r sched = Inr (child, h', r')"
  shows "idAsIndex h' child"
proof -
  let ?lp = "largerParent g0 g1"
  have lp: "idAsIndex h ?lp" using a0 a1 by (simp add: largerParent_def)
  from run obtain m0 m ns h1 cs where
    "recordAll h (ConnGenes g0) [] = Inr m0"
    "alignAll h (ConnGenes g1) m0 r = Inr (m, r')" and
    cn: "copyNodes (NodeGenes ?lp) h = Inr (ns, h1)" and
    cc: "copyConns ns (map snd (rangeOrder sched m)) h1 = Inr (cs, h')" and
    child: "child = \<lparr>GID = gid, NodeGenes = ns, ConnGenes = cs\<rparr>"
    by (rule Crossover_InrD)
  have res: "\<forall>p\<in>set (NodeGenes ?lp). getNode h p \<noteq> None"
    using idAsIndex_resolves [OF lp] by blast
  from copyNodes_ok [OF res] cn have
    ns: "ns = map Some [length (nodeObjs h)..<length (nodeObjs h) + length (NodeGenes ?lp)]" and
    h1: "nodeObjs h1 = nodeObjs h @ map (\<lambda>p. the (getNode h p)) (NodeGenes ?lp)"
    by simp_all
  from copyConns_frame [OF cc] have h': "nodeObjs h' = nodeObjs h1" by simp
  show ?thesis
    unfolding idAsIndex_iff
  proof (intro allI impI)
    fix i
    assume "i < length (NodeGenes child)"
    then have i: "i < length (NodeGenes ?lp)" by (simp add: child ns)
    from lp i obtain n where n: "getNode h (NodeGenes ?lp ! i) = Some n" "ID n = int i"
      by (auto simp: idAsIndex_iff)
    have "getNode h' (NodeGenes child ! i) = Some (the (getNode h (NodeGenes ?lp ! i)))"
      using copied_node_lookup [OF h' [unfolded h1] i] by (simp add: child ns)
    with n show "\<exists>n. getNode h' (NodeGenes child ! i) = Some n \<and> ID n = int i" by simp
  qed
qed

text \<open>
  C2. The invariant \<open>nodes[i].id == i\<close> is kept by \<open>Mutate\<close>, for any rates, and by
  \<open>Crossover\<close>: if both parents have it, so has every genome that \<open>Mutate\<close> leaves
  behind and every child that \<open>Crossover\<close> returns, in the store after the call.
\<close>

theorem idAsIndex_preserved:
  assumes "idAsIndex h g0" and "idAsIndex h g1"
  shows "(\<forall>g' h' r'. Mutate aset g0 ratePerturb rateAddNode rateAddConn h r = Inr (g', h', r') \<longrightarrow>
            idAsIndex h' g') \<and>
         (\<forall>child h' r'. Crossover gid g0 g1 h r sched = Inr (child, h', r') \<longrightarrow> idAsIndex h' child)"
  using assms Mutate_idAsIndex Crossover_idAsIndex by blast


lemma ex_idAsIndex: "idAsIndex exHeap exGenomeA" "idAsIndex exHeap exGenomeB"
  by (simp_all add: idAsIndex_def getNode_def deref_def exHeap_def exGenomeA_def exGenomeB_def upt_rec)

lemma ex_Crossover:
  "\<exists>child h' r'. Crossover 3 exGenomeA exGenomeB exHeap exRand [1, 1] = Inr (child, h', r') \<and>
      length (NodeGenes child) = 4 \<and> length (ConnGenes child) = 5"
  by (simp add: Crossover_def connKey_def getConn_def getNode_def deref_def mapGet_def
      Float64_def unit_of_def skip_def NewNodeGene_def index_def Let_def
      exGenomeA_def exGenomeB_def exHeap_def exRand_def)

theorem idAsIndex_preserved_witness:
  "idAsIndex exHeap exGenomeA \<and> idAsIndex exHeap exGenomeB \<and>
   (\<exists>g' h' r'. Mutate exAset exGenomeA 0 1 0 exHeap exRand = Inr (g', h', r') \<and>
      length (NodeGenes g') = 4 \<and> idAsIndex h' g') \<and>
   (\<exists>child h' r'. Crossover 3 exGenomeA exGenomeB exHeap exRand [1, 1] = Inr (child, h', r') \<and>
      length (NodeGenes child) = 4 \<and> idAsIndex h' child)"
proof -
  note inv = idAsIndex_preserved [OF ex_idAsIndex, of exAset 0 1 0 exRand 3 "[1, 1]"]
  have "Mutate exAset exGenomeA 0 1 0 exHeap exRand =
     Inr (\<lparr>GID = 1, NodeGenes = [Some 0, Some 1, Some 2, Some 7],
           ConnGenes = [Some 0, Some 1, Some 2, Some 7, Some 8]\<rparr>, exHeapSplit, skip 6 exRand)"
    by (rule ex_Mutate_add_node)
  with inv have "\<exists>g' h' r'. Mutate exAset exGenomeA 0 1 0 exHeap exRand = Inr (g', h', r') \<and>
      length (NodeGenes g') = 4 \<and> idAsIndex h' g'"
    by simp
  moreover from ex_Crossover inv
  have "\<exists>child h' r'. Crossover 3 exGenomeA exGenomeB exHeap exRand [1, 1] = Inr (child, h', r') \<and>
      length (NodeGenes child) = 4 \<and> idAsIndex h' child"
    by blast
  ultimately show ?thesis using ex_idAsIndex by blast
qed

section \<open>Genes that point outside the child's node list\<close>

lemma copyNodes_Inl: "copyNodes ps h = Inl e \<Longrightarrow> e = NilDeref"
  by (induction ps arbitrary: h) (auto simp: NewNodeGene_def split: option.splits sum.splits)

lemma innovations_keyed:
  assumes "recordAll h (ConnGenes g0) [] = Inr m0" and "alignAll h (ConnGenes g1) m0 r = Inr (m, r1)"
  shows "distinct (map fst m) \<and> (\<forall>e\<in>set m. connKey h (snd e) = Inr (fst e))"
proof -
  from recordAll_inv [OF assms(1)] have "distinct (map fst m0) \<and> (\<forall>e\<in>set m0. connKey h (snd e) = Inr (fst e))"
    by simp
  with alignAll_inv [OF assms(2)] show ?thesis by simp
qed

lemma copyNodes_heap:
  assumes "copyNodes ps h = Inr (ns, h1)"
  obtains new where "h1 = h\<lparr>nodeObjs := nodeObjs h @ new\<rparr>" "length new = length ps"
    "ns = map Some [length (nodeObjs h)..<length (nodeObjs h) + length ps]"
proof -
  from copyNodes_frame [OF assms] obtain new where
    a: "ns = map Some [length (nodeObjs h)..<length (nodeObjs h) + length ps]"
       "connObjs h1 = connObjs h" "nodeObjs h1 = nodeObjs h @ new" "length new = length ps"
    by blast
  then have "h1 = h\<lparr>nodeObjs := nodeObjs h @ new\<rparr>" by simp
  with a show thesis by (intro that [of new]) simp_all
qed

text \<open>
  C9. When a gene of the alignment map has a node id that is not an index of the node
  list copied for the child (the node list of the larger parent), \<open>Crossover\<close> returns
  no genome: it panics, with an index out of range in the last loop, or before that
  with a nil dereference if a node pointer of the larger parent is nil. The key of a
  gene in the map is the pair of the node ids of the gene.
\<close>

theorem Crossover_panics_on_foreign_node_id:
  assumes rec: "recordAll h (ConnGenes g0) [] = Inr m0"
    and al: "alignAll h (ConnGenes g1) m0 r = Inr (m, r1)"
    and gene: "(k, conn) \<in> set m"
    and bad: "\<not> (0 \<le> fst k \<and> fst k < int (length (NodeGenes (largerParent g0 g1))) \<and>
                 0 \<le> snd k \<and> snd k < int (length (NodeGenes (largerParent g0 g1))))"
  shows "connKey h conn = Inr k \<and>
         (Crossover gid g0 g1 h r sched = Inl IndexOutOfRange \<or>
          Crossover gid g0 g1 h r sched = Inl NilDeref)"
proof -
  let ?lp = "largerParent g0 g1"
  from innovations_keyed [OF rec al] have keyed: "\<forall>e\<in>set m. connKey h (snd e) = Inr (fst e)" by simp
  with gene have key: "connKey h conn = Inr k" by force
  have "Crossover gid g0 g1 h r sched = Inl IndexOutOfRange \<or>
          Crossover gid g0 g1 h r sched = Inl NilDeref"
  proof (cases "copyNodes (NodeGenes ?lp) h")
    case (Inl e)
    then have "e = NilDeref" by (rule copyNodes_Inl)
    with Inl rec al show ?thesis by (simp add: Crossover_def largerParent_def Let_def)
  next
    case (Inr res)
    obtain ns h1 where res: "res = (ns, h1)" by (cases res)
    from Inr res obtain new where h1: "h1 = h\<lparr>nodeObjs := nodeObjs h @ new\<rparr>" and
      ns: "ns = map Some [length (nodeObjs h)..<length (nodeObjs h) + length (NodeGenes ?lp)]"
      by (auto elim: copyNodes_heap)
    let ?conns = "map snd (rangeOrder sched m)"
    have keys: "\<forall>c\<in>set ?conns. \<exists>k. connKey h1 c = Inr k"
    proof
      fix c
      assume "c \<in> set ?conns"
      then obtain e where "e \<in> set m" "c = snd e" by (auto simp: rangeOrder_set)
      with keyed have "connKey h c = Inr (fst e)" by simp
      from connKey_append_nodes [OF this, of new] show "\<exists>k. connKey h1 c = Inr k"
        by (auto simp: h1)
    qed
    have mem: "conn \<in> set ?conns" using gene by (force simp: rangeOrder_set)
    obtain a b where k: "k = (a, b)" by (cases k)
    from connKey_append_nodes [OF key, of new] have "connKey h1 conn = Inr (a, b)" by (simp add: h1 k)
    from childConn_None_iff [OF this, of ns] bad have "childConn ns h1 conn = None"
      by (simp add: ns k)
    with mem have "\<exists>c\<in>set ?conns. childConn ns h1 c = None" by blast
    from copyConns_out_of_range [OF keys this] Inr res rec al show ?thesis
      by (simp add: Crossover_def largerParent_def Let_def)
  qed
  with key show ?thesis by simp
qed

theorem Crossover_panics_on_foreign_node_id_witness:
  "recordAll exHeap (ConnGenes exGenomeA) [] = Inr [((0, 2), Some 0), ((1, 2), Some 1), ((0, 1), Some 2)] \<and>
   alignAll exHeap (ConnGenes \<lparr>GID = 4, NodeGenes = [Some 6], ConnGenes = [Some 6]\<rparr>)
     [((0, 2), Some 0), ((1, 2), Some 1), ((0, 1), Some 2)] exRandHigh =
     Inr ([((0, 2), Some 0), ((1, 2), Some 1), ((0, 1), Some 2), ((3, 2), Some 6)], exRandHigh) \<and>
   length (NodeGenes (largerParent exGenomeA \<lparr>GID = 4, NodeGenes = [Some 6], ConnGenes = [Some 6]\<rparr>)) = 3 \<and>
   connKey exHeap (Some 6) = Inr (3, 2) \<and>
   Crossover 5 exGenomeA \<lparr>GID = 4, NodeGenes = [Some 6], ConnGenes = [Some 6]\<rparr> exHeap exRandHigh [] =
     Inl IndexOutOfRange"
proof -
  let ?g = "\<lparr>GID = 4, NodeGenes = [Some 6], ConnGenes = [Some 6]\<rparr>"
  let ?m0 = "[((0, 2), Some 0), ((1, 2), Some 1), ((0, 1), Some 2)] :: (innov \<times> ptr) list"
  have rec: "recordAll exHeap (ConnGenes exGenomeA) [] = Inr ?m0"
    by (simp add: connKey_def getConn_def getNode_def deref_def exGenomeA_def exHeap_def)
  have al: "alignAll exHeap (ConnGenes ?g) ?m0 exRandHigh = Inr (?m0 @ [((3, 2), Some 6)], exRandHigh)"
    by (simp add: connKey_def getConn_def getNode_def deref_def mapGet_def exHeap_def)
  have gene: "((3, 2), Some 6) \<in> set (?m0 @ [((3, 2), Some 6)])" by simp
  have len: "length (NodeGenes (largerParent exGenomeA ?g)) = 3"
    by (simp add: largerParent_def exGenomeA_def)
  have bad: "\<not> (0 \<le> fst (3::int, 2::int) \<and> fst (3::int, 2::int) < int (length (NodeGenes (largerParent exGenomeA ?g))) \<and>
      0 \<le> snd (3::int, 2::int) \<and> snd (3::int, 2::int) < int (length (NodeGenes (largerParent exGenomeA ?g))))"
    by (simp add: len)
  have run: "Crossover 5 exGenomeA ?g exHeap exRandHigh [] = Inl IndexOutOfRange"
    by (simp add: Crossover_def connKey_def getConn_def getNode_def deref_def mapGet_def
        NewNodeGene_def index_def Let_def exGenomeA_def exHeap_def)
  from Crossover_panics_on_foreign_node_id [OF rec al gene bad, of 5 "[]"]
  have "connKey exHeap (Some 6) = Inr (3, 2)" by simp
  with rec al len run show ?thesis by simp
qed

section \<open>The child shares no object with its parents\<close>

lemma getNode_extend:
  "nodeObjs h' = nodeObjs h @ xs \<Longrightarrow> getNode h p = Some n \<Longrightarrow> getNode h' p = Some n"
  by (cases p) (auto simp: getNode_def deref_def nth_append split: if_splits)

lemma getConn_extend:
  "connObjs h' = connObjs h @ xs \<Longrightarrow> getConn h p = Some c \<Longrightarrow> getConn h' p = Some c"
  by (cases p) (auto simp: getConn_def deref_def nth_append split: if_splits)

lemma fresh_ptrs:
  "p \<in> set (map Some [l..<l + n]) \<Longrightarrow> \<exists>j<n. p = Some (l + j)"
proof -
  assume "p \<in> set (map Some [l..<l + n])"
  then obtain a where a: "p = Some a" "l \<le> a" "a < l + n" by auto
  then have "a - l < n" "p = Some (l + (a - l))" by simp_all
  then show ?thesis by blast
qed

text \<open>
  C7. \<open>Crossover\<close> writes to no object that exists before the call, so both parents are
  as they were. The node list of the child is a copy of the node list of the larger
  parent (\<open>g0\<close> unless \<open>g1\<close> has more nodes): the node objects are equal, one by one,
  and the child's are new objects. The connections of the child are new objects too,
  and their ends are nodes of the child. The node pointers of the larger parent are
  taken to be nil or objects of the store, as Go guarantees.
\<close>

theorem Crossover_child_is_independent:
  assumes run: "Crossover gid g0 g1 h r sched = Inr (child, h', r')"
    and safe: "\<forall>p\<in>set (NodeGenes (largerParent g0 g1)). p = None \<or> getNode h p \<noteq> None"
  shows "(\<forall>p n. getNode h p = Some n \<longrightarrow> getNode h' p = Some n) \<and>
         (\<forall>p c. getConn h p = Some c \<longrightarrow> getConn h' p = Some c) \<and>
         GID child = gid \<and>
         map (getNode h') (NodeGenes child) = map (getNode h) (NodeGenes (largerParent g0 g1)) \<and>
         distinct (NodeGenes child) \<and>
         (\<forall>p\<in>set (NodeGenes child). getNode h p = None \<and> getNode h' p \<noteq> None) \<and>
         distinct (ConnGenes child) \<and>
         (\<forall>c\<in>set (ConnGenes child). getConn h c = None \<and>
            (\<exists>x. getConn h' c = Some x \<and> From x \<in> set (NodeGenes child) \<and> To x \<in> set (NodeGenes child)))"
proof -
  let ?ps = "NodeGenes (largerParent g0 g1)"
  let ?ln = "length (nodeObjs h)"
  let ?lc = "length (connObjs h)"
  from run obtain m0 m ns h1 cs where
    "recordAll h (ConnGenes g0) [] = Inr m0"
    "alignAll h (ConnGenes g1) m0 r = Inr (m, r')" and
    cn: "copyNodes ?ps h = Inr (ns, h1)" and
    cc: "copyConns ns (map snd (rangeOrder sched m)) h1 = Inr (cs, h')" and
    child: "child = \<lparr>GID = gid, NodeGenes = ns, ConnGenes = cs\<rparr>"
    by (rule Crossover_InrD)
  have res: "\<forall>p\<in>set ?ps. getNode h p \<noteq> None"
    using safe cn by (rule copyNodes_resolved)
  from copyNodes_ok [OF res] cn have
    ns: "ns = map Some [?ln..<?ln + length ?ps]" and
    h1n: "nodeObjs h1 = nodeObjs h @ map (\<lambda>p. the (getNode h p)) ?ps" and
    h1c: "connObjs h1 = connObjs h"
    by simp_all
  from copyConns_frame [OF cc] obtain new where
    cs: "cs = map Some [?lc..<?lc + length (map snd (rangeOrder sched m))]" and
    h'n: "nodeObjs h' = nodeObjs h1" and
    h'c: "connObjs h' = connObjs h @ new" and
    len: "length new = length (map snd (rangeOrder sched m))" and
    ends: "\<forall>x\<in>set new. From x \<in> set ns \<and> To x \<in> set ns"
    by (auto simp: h1c)
  have nodes: "nodeObjs h' = nodeObjs h @ map (\<lambda>p. the (getNode h p)) ?ps"
    using h'n h1n by simp
  have a: "\<forall>p n. getNode h p = Some n \<longrightarrow> getNode h' p = Some n"
    using getNode_extend [OF nodes] by blast
  have b: "\<forall>p c. getConn h p = Some c \<longrightarrow> getConn h' p = Some c"
    using getConn_extend [OF h'c] by blast
  have c: "GID child = gid" by (simp add: child)
  have d: "map (getNode h') (NodeGenes child) = map (getNode h) ?ps"
  proof (rule nth_equalityI)
    show "length (map (getNode h') (NodeGenes child)) = length (map (getNode h) ?ps)"
      by (simp add: child ns)
  next
    fix i
    assume "i < length (map (getNode h') (NodeGenes child))"
    then have i: "i < length ?ps" by (simp add: child ns)
    then have "?ps ! i \<in> set ?ps" by simp
    with res obtain n where n: "getNode h (?ps ! i) = Some n" by auto
    have "getNode h' (ns ! i) = Some (the (getNode h (?ps ! i)))"
      unfolding ns using nodes i by (rule copied_node_lookup)
    with n i show "map (getNode h') (NodeGenes child) ! i = map (getNode h) ?ps ! i"
      by (simp add: child ns)
  qed
  have e: "distinct (NodeGenes child)"
    by (simp add: child ns distinct_map)
  have f: "\<forall>p\<in>set (NodeGenes child). getNode h p = None \<and> getNode h' p \<noteq> None"
  proof
    fix p
    assume "p \<in> set (NodeGenes child)"
    then have "p \<in> set (map Some [?ln..<?ln + length ?ps])" by (simp add: child ns)
    then obtain j where "j < length ?ps" "p = Some (?ln + j)" using fresh_ptrs by blast
    then show "getNode h p = None \<and> getNode h' p \<noteq> None"
      by (simp add: getNode_def deref_def nodes)
  qed
  have g: "distinct (ConnGenes child)"
    by (simp add: child cs distinct_map)
  have i: "\<forall>c\<in>set (ConnGenes child). getConn h c = None \<and>
            (\<exists>x. getConn h' c = Some x \<and> From x \<in> set (NodeGenes child) \<and> To x \<in> set (NodeGenes child))"
  proof
    fix c
    assume "c \<in> set (ConnGenes child)"
    then have "c \<in> set (map Some [?lc..<?lc + length new])" by (simp add: child cs len)
    then obtain j where j: "j < length new" "c = Some (?lc + j)" using fresh_ptrs by blast
    then have "getConn h c = None" "getConn h' c = Some (new ! j)"
      by (simp_all add: getConn_def deref_def h'c)
    moreover from j(1) have "new ! j \<in> set new" by simp
    with ends have "From (new ! j) \<in> set (NodeGenes child) \<and> To (new ! j) \<in> set (NodeGenes child)"
      by (simp add: child)
    ultimately show "getConn h c = None \<and>
            (\<exists>x. getConn h' c = Some x \<and> From x \<in> set (NodeGenes child) \<and> To x \<in> set (NodeGenes child))"
      by simp
  qed
  show ?thesis using a b c d e f g i by simp
qed

theorem Crossover_child_is_independent_witness:
  "largerParent exGenomeA exGenomeB = exGenomeB \<and>
   list_all (\<lambda>p. getNode exHeap p \<noteq> None) (NodeGenes exGenomeB) \<and>
   (\<exists>child h' r'. Crossover 3 exGenomeA exGenomeB exHeap exRand [1, 1] = Inr (child, h', r') \<and>
      length (NodeGenes child) = 4 \<and> length (ConnGenes child) = 5 \<and>
      map (getNode h') (NodeGenes child) = map (getNode exHeap) (NodeGenes exGenomeB) \<and>
      distinct (NodeGenes child) \<and>
      (\<forall>p\<in>set (NodeGenes child). getNode exHeap p = None \<and> getNode h' p \<noteq> None) \<and>
      (\<forall>c\<in>set (ConnGenes child). getConn exHeap c = None) \<and>
      getConn h' (Some 1) = getConn exHeap (Some 1))"
proof -
  have lp: "largerParent exGenomeA exGenomeB = exGenomeB"
    by (simp add: largerParent_def exGenomeA_def exGenomeB_def)
  have all: "list_all (\<lambda>p. getNode exHeap p \<noteq> None) (NodeGenes exGenomeB)"
    by (simp add: getNode_def deref_def exGenomeB_def exHeap_def)
  then have safe: "\<forall>p\<in>set (NodeGenes (largerParent exGenomeA exGenomeB)). p = None \<or> getNode exHeap p \<noteq> None"
    by (simp add: lp list_all_iff)
  have old: "getConn exHeap (Some 1) = Some \<lparr>From = Some 1, To = Some 2, Weight = - 3, Disabled = True\<rparr>"
    by (simp add: getConn_def deref_def exHeap_def)
  from ex_Crossover obtain child h' r' where
    run: "Crossover 3 exGenomeA exGenomeB exHeap exRand [1, 1] = Inr (child, h', r')" and
    len: "length (NodeGenes child) = 4" "length (ConnGenes child) = 5"
    by blast
  from Crossover_child_is_independent [OF run safe] old
  have "map (getNode h') (NodeGenes child) = map (getNode exHeap) (NodeGenes exGenomeB) \<and>
      distinct (NodeGenes child) \<and>
      (\<forall>p\<in>set (NodeGenes child). getNode exHeap p = None \<and> getNode h' p \<noteq> None) \<and>
      (\<forall>c\<in>set (ConnGenes child). getConn exHeap c = None) \<and>
      getConn h' (Some 1) = getConn exHeap (Some 1)"
    by (simp add: lp)
  with run len lp all show ?thesis by blast
qed

section \<open>Crossover of valid genomes\<close>

lemma valid_connKey:
  assumes v: "valid h g" and c: "conn \<in> set (ConnGenes g)"
  obtains x i j where "getConn h conn = Some x" "i < length (NodeGenes g)" "j < length (NodeGenes g)"
    "From x = NodeGenes g ! i" "To x = NodeGenes g ! j" "connKey h conn = Inr (int i, int j)"
proof -
  from v c obtain x where x: "getConn h conn = Some x" "From x \<in> set (NodeGenes g)"
    "To x \<in> set (NodeGenes g)"
    by (auto simp: valid_def endpointsOwned_def list_all_iff split: option.splits)
  then obtain i j where ij: "i < length (NodeGenes g)" "From x = NodeGenes g ! i"
    "j < length (NodeGenes g)" "To x = NodeGenes g ! j"
    by (metis in_set_conv_nth)
  from v have "idAsIndex h g" by (simp add: valid_def)
  with ij obtain ni nj where "getNode h (From x) = Some ni" "ID ni = int i"
    "getNode h (To x) = Some nj" "ID nj = int j"
    unfolding idAsIndex_iff by metis
  with x have "connKey h conn = Inr (int i, int j)" by (simp add: connKey_def)
  with x ij show thesis by (intro that [of x i j]) simp_all
qed

lemma valid_keys: "valid h g \<Longrightarrow> \<forall>c\<in>set (ConnGenes g). \<exists>k. connKey h c = Inr k"
  by (meson valid_connKey)

lemma recordAll_values:
  "recordAll h conns m = Inr m' \<Longrightarrow> snd ` set m' \<subseteq> snd ` set m \<union> set conns"
proof (induction conns arbitrary: m)
  case Nil
  then show ?case by simp
next
  case (Cons conn conns)
  from Cons.prems obtain k where run: "recordAll h conns (mapPut k conn m) = Inr m'"
    by (auto split: sum.splits)
  have "snd ` set (mapPut k conn m) \<subseteq> insert conn (snd ` set m)"
    using set_mapPut [of k conn m] by force
  with Cons.IH [OF run] show ?case by auto
qed

lemma alignAll_values:
  "alignAll h conns m r = Inr (m', r') \<Longrightarrow> snd ` set m' \<subseteq> snd ` set m \<union> set conns"
proof (induction conns arbitrary: m r)
  case Nil
  then show ?case by simp
next
  case (Cons conn conns)
  from Cons.prems obtain k m1 r1 where
    run: "alignAll h conns m1 r1 = Inr (m', r')" and m1: "m1 = m \<or> m1 = mapPut k conn m"
    by (rule alignAll_step_map)
  have "snd ` set (mapPut k conn m) \<subseteq> insert conn (snd ` set m)"
    using set_mapPut [of k conn m] by force
  with m1 have "snd ` set m1 \<subseteq> insert conn (snd ` set m)" by auto
  with Cons.IH [OF run] show ?case by auto
qed

lemma recordAll_nonnil:
  assumes "recordAll h conns [] = Inr m"
  shows "None \<notin> snd ` set m"
proof
  assume "None \<in> snd ` set m"
  with recordAll_values [OF assms] have "None \<in> set conns" by auto
  with recordAll_keys [OF assms] obtain k where "connKey h None = Inr k" by blast
  then show False by (simp add: connKey_def getConn_def deref_def)
qed

lemma rangeOrder_distinct: "distinct xs \<Longrightarrow> distinct (rangeOrder sched xs)"
proof -
  assume "distinct xs"
  then have "card (set xs) = length xs" by (rule distinct_card)
  then have "card (set (rangeOrder sched xs)) = length (rangeOrder sched xs)"
    by (simp add: rangeOrder_set rangeOrder_length)
  then show ?thesis by (rule card_distinct)
qed

lemma rangeOrder_distinct_keys:
  "distinct (map fst m) \<Longrightarrow> distinct (map fst (rangeOrder sched m))"
proof -
  assume d: "distinct (map fst m)"
  then have "distinct m" by (simp add: distinct_map)
  then have "distinct (rangeOrder sched m)" by (rule rangeOrder_distinct)
  moreover have "inj_on fst (set (rangeOrder sched m))"
    using d by (simp add: rangeOrder_set distinct_map)
  ultimately show ?thesis by (simp add: distinct_map)
qed

lemma childConn_valid:
  assumes key: "connKey h v = Inr (int i, int j)" and i: "i < n" and j: "j < n"
    and x: "getConn h v = Some x"
  shows "childConn (map Some [l..<l + n]) (h\<lparr>nodeObjs := nodeObjs h @ new\<rparr>) v =
           Some \<lparr>From = Some (l + i), To = Some (l + j), Weight = Weight x, Disabled = Disabled x\<rparr>"
proof -
  from connKey_append_nodes [OF key, of new]
  have "connKey (h\<lparr>nodeObjs := nodeObjs h @ new\<rparr>) v = Inr (int i, int j)" .
  with x i j show ?thesis by (simp add: childConn_def index_def)
qed

lemma child_gene_tuple:
  assumes lp: "idAsIndex h lp" and key: "connKey h v = Inr (int i, int j)"
    and i: "i < length (NodeGenes lp)" and j: "j < length (NodeGenes lp)"
    and nodes: "nodeObjs h' = nodeObjs h @ map (\<lambda>p. the (getNode h p)) (NodeGenes lp)"
    and x: "getConn h v = Some x"
    and q: "getConn h' q = Some \<lparr>From = Some (length (nodeObjs h) + i),
              To = Some (length (nodeObjs h) + j), Weight = Weight x, Disabled = Disabled x\<rparr>"
  shows "connKey h' q = Inr (int i, int j)" and "connTuple h' q = connTuple h v"
proof -
  have node: "\<exists>n. getNode h' (Some (length (nodeObjs h) + k)) = Some n \<and> ID n = int k"
    if "k < length (NodeGenes lp)" for k
  proof -
    from lp that obtain n where n: "getNode h (NodeGenes lp ! k) = Some n" "ID n = int k"
      by (auto simp: idAsIndex_iff)
    from copied_node_lookup [OF nodes that] that
    have "getNode h' (Some (length (nodeObjs h) + k)) = Some (the (getNode h (NodeGenes lp ! k)))"
      by simp
    with n show ?thesis by simp
  qed
  from node [OF i] node [OF j] q show k': "connKey h' q = Inr (int i, int j)"
    by (auto simp: connKey_def)
  from k' q key x show "connTuple h' q = connTuple h v"
    by (simp add: connTuple_def)
qed

lemma largerParent_length:
  "length (NodeGenes g0) \<le> length (NodeGenes (largerParent g0 g1))"
  "length (NodeGenes g1) \<le> length (NodeGenes (largerParent g0 g1))"
  by (simp_all add: largerParent_def)

lemma Crossover_valid:
  assumes v0: "valid h g0" and v1: "valid h g1"
  obtains m0 m r' child h' where
    "recordAll h (ConnGenes g0) [] = Inr m0"
    "alignAll h (ConnGenes g1) m0 r = Inr (m, r')"
    "Crossover gid g0 g1 h r sched = Inr (child, h', r')"
    "map (connKey h') (ConnGenes child) = map (connKey h) (map snd (rangeOrder sched m))"
    "map (connTuple h') (ConnGenes child) = map (connTuple h) (map snd (rangeOrder sched m))"
    "map (getNode h') (NodeGenes child) = map (getNode h) (NodeGenes (largerParent g0 g1))"
proof -
  let ?lp = "largerParent g0 g1"
  let ?ps = "NodeGenes ?lp"
  let ?ln = "length (nodeObjs h)"
  let ?lc = "length (connObjs h)"
  from recordAll_ok [OF valid_keys [OF v0]] obtain m0 where
    rec: "recordAll h (ConnGenes g0) [] = Inr m0" by blast
  from alignAll_ok [OF valid_keys [OF v1]] obtain m r' where
    al: "alignAll h (ConnGenes g1) m0 r = Inr (m, r')" by blast
  let ?vs = "map snd (rangeOrder sched m)"
  have lp: "idAsIndex h ?lp" using v0 v1 by (simp add: largerParent_def valid_def)
  have res: "\<forall>p\<in>set ?ps. getNode h p \<noteq> None"
    using idAsIndex_resolves [OF lp] by blast
  define ns where "ns = map Some [?ln..<?ln + length ?ps]"
  define new where "new = map (\<lambda>p. the (getNode h p)) ?ps"
  define h1 where "h1 = h\<lparr>nodeObjs := nodeObjs h @ new\<rparr>"
  have cn: "copyNodes ?ps h = Inr (ns, h1)"
    using copyNodes_ok [OF res] by (simp add: ns_def h1_def new_def)
  have gene: "\<exists>x i j. getConn h v = Some x \<and> i < length ?ps \<and> j < length ?ps \<and>
      connKey h v = Inr (int i, int j)" if "v \<in> set ?vs" for v
  proof -
    from that have "v \<in> snd ` set m" by (simp add: rangeOrder_set)
    with alignAll_values [OF al] recordAll_values [OF rec]
    have "v \<in> set (ConnGenes g0) \<or> v \<in> set (ConnGenes g1)" by auto
    then show ?thesis
    proof
      assume "v \<in> set (ConnGenes g0)"
      with v0 obtain x i j where "getConn h v = Some x" "i < length (NodeGenes g0)"
        "j < length (NodeGenes g0)" "connKey h v = Inr (int i, int j)"
        by (rule valid_connKey)
      with largerParent_length(1) [of g0 g1] show ?thesis
        by (intro exI [of _ x] exI [of _ i] exI [of _ j]) simp
    next
      assume "v \<in> set (ConnGenes g1)"
      with v1 obtain x i j where "getConn h v = Some x" "i < length (NodeGenes g1)"
        "j < length (NodeGenes g1)" "connKey h v = Inr (int i, int j)"
        by (rule valid_connKey)
      with largerParent_length(2) [of g1 g0] show ?thesis
        by (intro exI [of _ x] exI [of _ i] exI [of _ j]) simp
    qed
  qed
  have built: "\<forall>v\<in>set ?vs. childConn ns h1 v \<noteq> None"
  proof
    fix v
    assume "v \<in> set ?vs"
    from gene [OF this] obtain x i j where "getConn h v = Some x" "i < length ?ps" "j < length ?ps"
      "connKey h v = Inr (int i, int j)" by blast
    from childConn_valid [OF this(4,2,3,1), of ?ln new] show "childConn ns h1 v \<noteq> None"
      by (simp add: ns_def h1_def)
  qed
  define h' where "h' = h1\<lparr>connObjs := connObjs h1 @ map (\<lambda>c. the (childConn ns h1 c)) ?vs\<rparr>"
  define cs where "cs = map Some [?lc..<?lc + length ?vs]"
  have cc: "copyConns ns ?vs h1 = Inr (cs, h')"
    using copyConns_ok [OF built] by (simp add: cs_def h'_def h1_def)
  define child where "child = \<lparr>GID = gid, NodeGenes = ns, ConnGenes = cs\<rparr>"
  have run: "Crossover gid g0 g1 h r sched = Inr (child, h', r')"
    unfolding child_def using rec al cn cc by (rule Crossover_InrI)
  have nodes: "nodeObjs h' = nodeObjs h @ map (\<lambda>p. the (getNode h p)) ?ps"
    by (simp add: h'_def h1_def new_def)
  have each: "connKey h' (cs ! k) = connKey h (?vs ! k) \<and> connTuple h' (cs ! k) = connTuple h (?vs ! k)"
    if k: "k < length ?vs" for k
  proof -
    from k have "?vs ! k \<in> set ?vs" by (rule nth_mem)
    from gene [OF this] obtain x i j where g: "getConn h (?vs ! k) = Some x" "i < length ?ps"
      "j < length ?ps" "connKey h (?vs ! k) = Inr (int i, int j)" by blast
    from childConn_valid [OF g(4,2,3,1), of ?ln new]
    have "childConn ns h1 (?vs ! k) = Some \<lparr>From = Some (?ln + i), To = Some (?ln + j),
        Weight = Weight x, Disabled = Disabled x\<rparr>"
      by (simp add: ns_def h1_def)
    with k have "getConn h' (cs ! k) = Some \<lparr>From = Some (?ln + i), To = Some (?ln + j),
        Weight = Weight x, Disabled = Disabled x\<rparr>"
      by (simp add: getConn_def deref_def h'_def h1_def cs_def nth_append del: map_map)
    from child_gene_tuple [OF lp g(4,2,3) nodes g(1) this] g(4) show ?thesis by simp
  qed
  have keys: "map (connKey h') (ConnGenes child) = map (connKey h) ?vs"
  proof (rule nth_equalityI)
    show "length (map (connKey h') (ConnGenes child)) = length (map (connKey h) ?vs)"
      by (simp add: child_def cs_def)
  next
    fix k
    assume "k < length (map (connKey h') (ConnGenes child))"
    then have k: "k < length ?vs" by (simp add: child_def cs_def)
    with each [OF k] show "map (connKey h') (ConnGenes child) ! k = map (connKey h) ?vs ! k"
      by (simp add: child_def cs_def)
  qed
  have tuples: "map (connTuple h') (ConnGenes child) = map (connTuple h) ?vs"
  proof (rule nth_equalityI)
    show "length (map (connTuple h') (ConnGenes child)) = length (map (connTuple h) ?vs)"
      by (simp add: child_def cs_def)
  next
    fix k
    assume "k < length (map (connTuple h') (ConnGenes child))"
    then have k: "k < length ?vs" by (simp add: child_def cs_def)
    with each [OF k] show "map (connTuple h') (ConnGenes child) ! k = map (connTuple h) ?vs ! k"
      by (simp add: child_def cs_def)
  qed
  have copy: "map (getNode h') (NodeGenes child) = map (getNode h) ?ps"
  proof (rule nth_equalityI)
    show "length (map (getNode h') (NodeGenes child)) = length (map (getNode h) ?ps)"
      by (simp add: child_def ns_def)
  next
    fix i
    assume "i < length (map (getNode h') (NodeGenes child))"
    then have i: "i < length ?ps" by (simp add: child_def ns_def)
    then have "?ps ! i \<in> set ?ps" by simp
    with res obtain n where n: "getNode h (?ps ! i) = Some n" by auto
    have "getNode h' (ns ! i) = Some (the (getNode h (?ps ! i)))"
      unfolding ns_def using nodes i by (rule copied_node_lookup)
    with n i show "map (getNode h') (NodeGenes child) ! i = map (getNode h) ?ps ! i"
      by (simp add: child_def ns_def)
  qed
  from rec al run keys tuples copy show thesis by (rule that)
qed

lemma child_uniquePairs:
  assumes "distinct (map fst m)" and "\<forall>e\<in>set m. connKey h (snd e) = Inr (fst e)"
    and "map (connKey h') (ConnGenes child) = map (connKey h) (map snd (rangeOrder sched m))"
  shows "uniquePairs h' child"
proof -
  have eq: "map (connKey h) (map snd (rangeOrder sched m)) = map Inr (map fst (rangeOrder sched m))"
    using assms(2) by (simp add: rangeOrder_set)
  have "distinct (map fst (rangeOrder sched m))"
    using assms(1) by (rule rangeOrder_distinct_keys)
  then have "distinct (map Inr (map fst (rangeOrder sched m)))"
    by (simp only: distinct_map) (simp add: inj_on_def)
  then show ?thesis unfolding uniquePairs_def assms(3) eq .
qed

lemma ex_valid: "valid exHeap exGenomeA" "valid exHeap exGenomeB"
proof -
  have "endpointsOwned exHeap exGenomeA" "endpointsOwned exHeap exGenomeB"
    by (simp_all add: endpointsOwned_def getConn_def deref_def exHeap_def exGenomeA_def exGenomeB_def)
  moreover have "uniquePairs exHeap exGenomeA" "uniquePairs exHeap exGenomeB"
    by (simp_all add: uniquePairs_def connKey_def getConn_def getNode_def deref_def
        exHeap_def exGenomeA_def exGenomeB_def)
  ultimately show "valid exHeap exGenomeA" "valid exHeap exGenomeB"
    using ex_idAsIndex by (simp_all add: valid_def)
qed

text \<open>
  C5. Crossing a valid genome with itself gives, for every child id, random source and
  iteration order of the map, a child whose node objects equal those of the genome, one
  by one (same ids, roles and activations), and whose connections have the same set of
  tuples \<open>(from.id, to.id, weight, disabled)\<close> as those of the genome, one connection
  for each pair of ids.
\<close>

theorem Crossover_of_identical_parents:
  assumes v: "valid h g"
  shows "\<exists>child h' r'. Crossover gid g g h r sched = Inr (child, h', r') \<and>
           map (getNode h') (NodeGenes child) = map (getNode h) (NodeGenes g) \<and>
           set (map (connTuple h') (ConnGenes child)) = set (map (connTuple h) (ConnGenes g)) \<and>
           uniquePairs h' child"
proof -
  from v v obtain m0 m r' child h' where
    rec: "recordAll h (ConnGenes g) [] = Inr m0" and
    al: "alignAll h (ConnGenes g) m0 r = Inr (m, r')" and
    run: "Crossover gid g g h r sched = Inr (child, h', r')" and
    keys: "map (connKey h') (ConnGenes child) = map (connKey h) (map snd (rangeOrder sched m))" and
    tuples: "map (connTuple h') (ConnGenes child) = map (connTuple h) (map snd (rangeOrder sched m))" and
    copy: "map (getNode h') (NodeGenes child) = map (getNode h) (NodeGenes (largerParent g g))"
    by (rule Crossover_valid)
  from v have d: "distinct (map (connKey h) (ConnGenes g))" by (simp add: valid_def uniquePairs_def)
  then have inj: "inj_on (connKey h) (set (ConnGenes g))" by (simp add: distinct_map)
  have sub: "snd ` set m \<subseteq> set (ConnGenes g)"
    using alignAll_values [OF al] recordAll_values [OF rec] by auto
  have sup: "set (ConnGenes g) \<subseteq> snd ` set m"
  proof
    fix c
    assume c: "c \<in> set (ConnGenes g)"
    with valid_keys [OF v] obtain k where k: "connKey h c = Inr k" by blast
    from recordAll_recorded [OF rec d c k] have m0: "map_of m0 k = Some c" .
    from alignAll_choice [OF al, of k] have "map_of m k = Some c"
    proof
      assume "map_of m k = map_of m0 k"
      with m0 show ?thesis by simp
    next
      assume "\<exists>c'\<in>set (ConnGenes g). connKey h c' = Inr k \<and> map_of m k = Some c'"
      then obtain c' where c': "c' \<in> set (ConnGenes g)" "connKey h c' = Inr k" "map_of m k = Some c'"
        by blast
      from inj c c'(1) k c'(2) have "c' = c" by (simp add: inj_on_def)
      with c'(3) show ?thesis by simp
    qed
    then have "(k, c) \<in> set m" by (rule map_of_SomeD)
    then show "c \<in> snd ` set m" by force
  qed
  from sub sup have vals: "snd ` set m = set (ConnGenes g)" by (rule equalityI)
  have "set (map (connTuple h') (ConnGenes child)) = connTuple h ` snd ` set m"
    by (simp add: tuples rangeOrder_set del: map_map)
  then have a: "set (map (connTuple h') (ConnGenes child)) = set (map (connTuple h) (ConnGenes g))"
    by (simp add: vals)
  from copy have b: "map (getNode h') (NodeGenes child) = map (getNode h) (NodeGenes g)"
    by (simp add: largerParent_def)
  from innovations_keyed [OF rec al] keys have c: "uniquePairs h' child"
    using child_uniquePairs by blast
  from run a b c show ?thesis by blast
qed

theorem Crossover_of_identical_parents_witness:
  "valid exHeap exGenomeB \<and>
   (\<exists>child h' r'. Crossover 9 exGenomeB exGenomeB exHeap exRand [2, 0, 1] = Inr (child, h', r') \<and>
      map (getNode h') (NodeGenes child) = map (getNode exHeap) (NodeGenes exGenomeB) \<and>
      set (map (connTuple h') (ConnGenes child)) =
        {Some (0, 2, 2, False), Some (1, 2, 4, True), Some (1, 3, 1, False), Some (3, 2, 4, False)})"
proof -
  have "set (map (connTuple exHeap) (ConnGenes exGenomeB)) =
      {Some (0, 2, 2, False), Some (1, 2, 4, True), Some (1, 3, 1, False), Some (3, 2, 4, False)}"
    by (simp add: connTuple_def connKey_def getConn_def getNode_def deref_def exHeap_def exGenomeB_def)
  with Crossover_of_identical_parents [OF ex_valid(2), of 9 exRand "[2, 0, 1]"] ex_valid(2)
  show ?thesis by auto
qed

section \<open>Which genes the child inherits\<close>

lemma paired_elem:
  assumes "map f xs = map g ys" and "map f' xs = map g' ys" and "x \<in> set xs"
  shows "\<exists>y\<in>set ys. f x = g y \<and> f' x = g' y"
proof -
  from assms(1) have len: "length xs = length ys" by (rule map_eq_imp_length_eq)
  from assms(3) obtain i where i: "i < length xs" "xs ! i = x" by (auto simp: in_set_conv_nth)
  from assms(1) have "map f xs ! i = map g ys ! i" by simp
  moreover from assms(2) have "map f' xs ! i = map g' ys ! i" by simp
  ultimately have "f x = g (ys ! i) \<and> f' x = g' (ys ! i)" using i len by simp
  moreover have "ys ! i \<in> set ys" using i len by simp
  ultimately show ?thesis by blast
qed

lemma map_values:
  "distinct (map fst m) \<Longrightarrow> snd ` set m = {c. \<exists>k. map_of m k = Some c}"
  by (force simp: map_of_eq_Some_iff)


text \<open>The second loop, gene by gene: which draw decides, and what it decides.\<close>

lemma connTuple_connKey:
  "connTuple h c = Some (a, b, w, d) \<Longrightarrow> connKey h c = Inr (a, b)"
  by (auto simp: connTuple_def split: option.splits sum.splits)

lemma alignAll_exact:
  assumes "alignAll h conns m r = Inr (m', r')" and "None \<notin> snd ` set m"
    and "distinct (map (connKey h) conns)"
  shows "r' = skip (length (filter (\<lambda>c. \<exists>k. connKey h c = Inr k \<and> map_of m k \<noteq> None) conns)) r"
    and "j < length conns \<Longrightarrow> connKey h (conns ! j) = Inr k \<Longrightarrow> map_of m k \<noteq> None \<Longrightarrow>
      map_of m' k =
        (if unit_of (r (length (filter (\<lambda>c. \<exists>k. connKey h c = Inr k \<and> map_of m k \<noteq> None)
              (take j conns)))) < 1 / 2
         then Some (conns ! j) else map_of m k)"
  using assms
proof (induction conns arbitrary: m r j)
  case Nil
  { case 1 then show ?case by (simp add: skip_zero) }
  { case 2 then show ?case by simp }
next
  case (Cons conn conns)
  let ?P = "\<lambda>m c. \<exists>k. connKey h c = Inr k \<and> map_of m k \<noteq> None"
  have step: "\<exists>k0 m1 r1. connKey h conn = Inr k0 \<and> alignAll h conns m1 r1 = Inr (m', r') \<and>
      None \<notin> snd ` set m1 \<and> distinct (map (connKey h) conns) \<and>
      Inr k0 \<notin> connKey h ` set conns \<and>
      (\<forall>k. k \<noteq> k0 \<longrightarrow> map_of m1 k = map_of m k) \<and>
      (if map_of m k0 \<noteq> None
       then r1 = skip 1 r \<and> map_of m1 k0 = (if unit_of (r 0) < 1 / 2 then Some conn else map_of m k0)
       else r1 = r)"
    if run: "alignAll h (conn # conns) m r = Inr (m', r')" and nn: "None \<notin> snd ` set m"
      and d: "distinct (map (connKey h) (conn # conns))" for m r
  proof -
    from run obtain k0 m1 r1 where k0: "connKey h conn = Inr k0" and
      rest: "alignAll h conns m1 r1 = Inr (m', r')" and
      m1: "m1 = m \<and> mapGet m k0 \<noteq> None \<and> \<not> unit_of (r 0) < 1 / 2 \<and> r1 = skip 1 r \<or>
        m1 = mapPut k0 conn m \<and> (if mapGet m k0 \<noteq> None then unit_of (r 0) < 1 / 2 \<and> r1 = skip 1 r else r1 = r)"
      by (rule alignAll_step)
    have g: "mapGet m k0 \<noteq> None \<longleftrightarrow> map_of m k0 \<noteq> None"
      using mapGet_None_iff [OF nn, of k0] by simp
    from m1 have m1': "m1 = m \<or> m1 = mapPut k0 conn m" by (elim disjE conjE) simp_all
    have nn1: "None \<notin> snd ` set m1"
    proof (cases "m1 = m")
      case True
      with nn show ?thesis by simp
    next
      case False
      with m1' have "m1 = mapPut k0 conn m" by simp
      with nonnil_mapPut [OF nn connKey_nonnil [OF k0]] show ?thesis by simp
    qed
    from d k0 have fresh: "Inr k0 \<notin> connKey h ` set conns" and d': "distinct (map (connKey h) conns)"
      by auto
    have other: "\<forall>k. k \<noteq> k0 \<longrightarrow> map_of m1 k = map_of m k"
      using m1' by (auto simp: map_of_mapPut)
    have last: "if map_of m k0 \<noteq> None
       then r1 = skip 1 r \<and> map_of m1 k0 = (if unit_of (r 0) < 1 / 2 then Some conn else map_of m k0)
       else r1 = r"
    proof (cases "map_of m k0 \<noteq> None")
      case True
      with g have gt: "mapGet m k0 \<noteq> None" by simp
      from m1 show ?thesis
      proof (elim disjE conjE)
        assume "m1 = m" "\<not> unit_of (r 0) < 1 / 2" "r1 = skip 1 r"
        with True show ?thesis by simp
      next
        assume a: "m1 = mapPut k0 conn m"
          "if mapGet m k0 \<noteq> None then unit_of (r 0) < 1 / 2 \<and> r1 = skip 1 r else r1 = r"
        from a(2) gt have "unit_of (r 0) < 1 / 2" "r1 = skip 1 r" by simp_all
        with a(1) True show ?thesis by (simp add: map_of_mapPut)
      qed
    next
      case False
      with g have gf: "mapGet m k0 = None" by simp
      from m1 gf have "r1 = r" by (elim disjE conjE) simp_all
      with False show ?thesis by simp
    qed
    from k0 rest nn1 d' fresh other last show ?thesis by blast
  qed
  have same: "filter (?P m1) cs = filter (?P m) cs"
    if "\<forall>k. k \<noteq> k0 \<longrightarrow> map_of m1 k = map_of m k" "Inr k0 \<notin> connKey h ` set cs" for m1 m k0 cs
  proof (rule filter_cong [OF refl])
    fix c
    assume "c \<in> set cs"
    with that(2) have "connKey h c \<noteq> Inr k0" by force
    with that(1) show "?P m1 c = ?P m c" by metis
  qed
  {
    case 1
    from step [OF 1] obtain k0 m1 r1 where
      k0: "connKey h conn = Inr k0" and rest: "alignAll h conns m1 r1 = Inr (m', r')" and
      nn1: "None \<notin> snd ` set m1" and d': "distinct (map (connKey h) conns)" and
      fresh: "Inr k0 \<notin> connKey h ` set conns" and
      other: "\<forall>k. k \<noteq> k0 \<longrightarrow> map_of m1 k = map_of m k" and
      last: "if map_of m k0 \<noteq> None
       then r1 = skip 1 r \<and> map_of m1 k0 = (if unit_of (r 0) < 1 / 2 then Some conn else map_of m k0)
       else r1 = r"
      by blast
    from Cons.IH(1) [OF rest nn1 d'] have "r' = skip (length (filter (?P m1) conns)) r1" .
    then have r': "r' = skip (length (filter (?P m) conns)) r1"
      by (simp only: same [OF other fresh])
    show ?case
    proof (cases "map_of m k0 \<noteq> None")
      case True
      with last have "r1 = skip 1 r" by simp
      with r' True k0 show ?thesis by (simp add: skip_skip del: split_paired_Ex split_paired_All)
    next
      case False
      with last have "r1 = r" by simp
      with r' False k0 show ?thesis by (simp del: split_paired_Ex split_paired_All)
    qed
  }
  {
    case 2
    from step [OF 2(4,5,6)] obtain k0 m1 r1 where
      k0: "connKey h conn = Inr k0" and rest: "alignAll h conns m1 r1 = Inr (m', r')" and
      nn1: "None \<notin> snd ` set m1" and d': "distinct (map (connKey h) conns)" and
      fresh: "Inr k0 \<notin> connKey h ` set conns" and
      other: "\<forall>k. k \<noteq> k0 \<longrightarrow> map_of m1 k = map_of m k" and
      last: "if map_of m k0 \<noteq> None
       then r1 = skip 1 r \<and> map_of m1 k0 = (if unit_of (r 0) < 1 / 2 then Some conn else map_of m k0)
       else r1 = r"
      by blast
    show ?case
    proof (cases j)
      case 0
      with 2(2) k0 have kk: "k = k0" by simp
      from alignAll_untouched [OF rest fresh] have "map_of m' k0 = map_of m1 k0" .
      with last 2(3) kk 0 show ?thesis by simp
    next
      case (Suc j')
      with 2(1,2) have j': "j' < length conns" and key: "connKey h (conns ! j') = Inr k" by simp_all
      from j' have "conns ! j' \<in> set conns" by simp
      with fresh key have ne: "k \<noteq> k0" by force
      from other ne have eq: "map_of m1 k = map_of m k" by blast
      with 2(3) have pres: "map_of m1 k \<noteq> None" by simp
      have fresh': "Inr k0 \<notin> connKey h ` set (take j' conns)"
        using fresh by (auto dest: in_set_takeD)
      from Cons.IH(2) [OF j' key pres rest nn1 d'] have
        "map_of m' k = (if unit_of (r1 (length (filter (?P m1) (take j' conns)))) < 1 / 2
           then Some (conns ! j') else map_of m1 k)" .
      then have ih: "map_of m' k = (if unit_of (r1 (length (filter (?P m) (take j' conns)))) < 1 / 2
           then Some (conns ! j') else map_of m k)"
        by (simp only: same [OF other fresh'] eq)
      show ?thesis
      proof (cases "map_of m k0 \<noteq> None")
        case True
        with last have "r1 = skip 1 r" by simp
        with ih True k0 Suc show ?thesis by (simp add: skip_apply del: split_paired_Ex split_paired_All)
      next
        case False
        with last have "r1 = r" by simp
        with ih False k0 Suc show ?thesis by (simp del: split_paired_Ex split_paired_All)
      qed
    qed
  }
qed

text \<open>
  C6. For valid parents the map is built as follows: after the first loop every
  connection of \<open>g0\<close> is stored under its key \<open>(from.id, to.id)\<close> and no other key is
  present; in the second loop a connection of \<open>g1\<close> whose key is absent is stored, one
  whose key is present either replaces the stored gene or leaves it, and keys that do
  not occur in \<open>g1\<close> are left alone. \<open>Crossover\<close> returns a child whose connections
  are copies of the genes of the final map, one for each key. So every gene whose key
  occurs in one parent only is in the child, and when every \<open>Float64\<close> of the second
  loop is at least one half (the first gene is kept), every gene of \<open>g0\<close> is in the
  child: the child's connection for a pair of \<open>g0\<close> has the weight and the flag that
  \<open>g0\<close> has for it.

  The tie-break is decided draw by draw. The loop makes one draw for each connection of
  \<open>g1\<close> whose key is a key of \<open>g0\<close>, in the order of \<open>g1.ConnGenes\<close>. If the draw
  for such a connection is below one half, the gene of \<open>g1\<close> replaces the gene of
  \<open>g0\<close> in the map and the child's connection for the pair has the weight and the
  flag of \<open>g1\<close>; otherwise the gene of \<open>g0\<close> stays and the child's connection has
  those of \<open>g0\<close>.
\<close>

theorem Crossover_alignment:
  assumes v0: "valid h g0" and v1: "valid h g1"
  shows "\<exists>m0 m child h' r'.
     recordAll h (ConnGenes g0) [] = Inr m0 \<and>
     alignAll h (ConnGenes g1) m0 r = Inr (m, r') \<and>
     Crossover gid g0 g1 h r sched = Inr (child, h', r') \<and>
     (\<forall>c0\<in>set (ConnGenes g0). \<forall>k. connKey h c0 = Inr k \<longrightarrow> map_of m0 k = Some c0) \<and>
     (\<forall>k. Inr k \<notin> connKey h ` set (ConnGenes g0) \<longrightarrow> map_of m0 k = None) \<and>
     (\<forall>c1\<in>set (ConnGenes g1). \<forall>k. connKey h c1 = Inr k \<longrightarrow>
        (if map_of m0 k = None then map_of m k = Some c1
         else map_of m k = Some c1 \<or> map_of m k = map_of m0 k)) \<and>
     (\<forall>k. Inr k \<notin> connKey h ` set (ConnGenes g1) \<longrightarrow> map_of m k = map_of m0 k) \<and>
     set (map (connTuple h') (ConnGenes child)) = connTuple h ` {c. \<exists>k. map_of m k = Some c} \<and>
     uniquePairs h' child \<and>
     (\<forall>c\<in>set (ConnGenes g0). connKey h c \<notin> connKey h ` set (ConnGenes g1) \<longrightarrow>
        connTuple h c \<in> set (map (connTuple h') (ConnGenes child))) \<and>
     (\<forall>c\<in>set (ConnGenes g1). connKey h c \<notin> connKey h ` set (ConnGenes g0) \<longrightarrow>
        connTuple h c \<in> set (map (connTuple h') (ConnGenes child))) \<and>
     ((\<forall>i. 1 / 2 \<le> unit_of (r i)) \<longrightarrow>
        (\<forall>c0\<in>set (ConnGenes g0). connTuple h c0 \<in> set (map (connTuple h') (ConnGenes child)) \<and>
           (\<forall>c\<in>set (ConnGenes child). connKey h' c = connKey h c0 \<longrightarrow>
              connTuple h' c = connTuple h c0))) \<and>
     r' = skip (length (filter (sharedKey h (ConnGenes g0)) (ConnGenes g1))) r \<and>
     (\<forall>j<length (ConnGenes g1). \<forall>k. connKey h (ConnGenes g1 ! j) = Inr k \<longrightarrow>
        sharedKey h (ConnGenes g0) (ConnGenes g1 ! j) \<longrightarrow>
        map_of m k =
          (if unit_of (r (tieBreak h (ConnGenes g0) (ConnGenes g1) j)) < 1 / 2
           then Some (ConnGenes g1 ! j) else map_of m0 k)) \<and>
     (\<forall>j<length (ConnGenes g1). \<forall>c0\<in>set (ConnGenes g0).
        connKey h c0 = connKey h (ConnGenes g1 ! j) \<longrightarrow>
        (\<forall>c\<in>set (ConnGenes child). connKey h' c = connKey h c0 \<longrightarrow>
           connTuple h' c =
             (if unit_of (r (tieBreak h (ConnGenes g0) (ConnGenes g1) j)) < 1 / 2
              then connTuple h (ConnGenes g1 ! j) else connTuple h c0)) \<and>
        (if unit_of (r (tieBreak h (ConnGenes g0) (ConnGenes g1) j)) < 1 / 2
         then connTuple h (ConnGenes g1 ! j) else connTuple h c0)
          \<in> set (map (connTuple h') (ConnGenes child)))"
proof -
  from v0 v1 obtain m0 m r' child h' where
    rec: "recordAll h (ConnGenes g0) [] = Inr m0" and
    al: "alignAll h (ConnGenes g1) m0 r = Inr (m, r')" and
    run: "Crossover gid g0 g1 h r sched = Inr (child, h', r')" and
    keys: "map (connKey h') (ConnGenes child) = map (connKey h) (map snd (rangeOrder sched m))" and
    tuples: "map (connTuple h') (ConnGenes child) = map (connTuple h) (map snd (rangeOrder sched m))"
    by (rule Crossover_valid)
  from v0 have d0: "distinct (map (connKey h) (ConnGenes g0))" by (simp add: valid_def uniquePairs_def)
  from v1 have d1: "distinct (map (connKey h) (ConnGenes g1))" by (simp add: valid_def uniquePairs_def)
  from d1 have inj1: "inj_on (connKey h) (set (ConnGenes g1))" by (simp add: distinct_map)
  from innovations_keyed [OF rec al] have dm: "distinct (map fst m)" and
    keyed: "\<forall>e\<in>set m. connKey h (snd e) = Inr (fst e)" by simp_all
  have nn: "None \<notin> snd ` set m0" using rec by (rule recordAll_nonnil)
  have p1: "map_of m0 k = Some c0" if "c0 \<in> set (ConnGenes g0)" "connKey h c0 = Inr k" for c0 k
    using rec d0 that by (rule recordAll_recorded)
  have p2: "map_of m0 k = None" if "Inr k \<notin> connKey h ` set (ConnGenes g0)" for k
    using recordAll_untouched [OF rec that] by simp
  have p3: "if map_of m0 k = None then map_of m k = Some c1
         else map_of m k = Some c1 \<or> map_of m k = map_of m0 k"
    if c1: "c1 \<in> set (ConnGenes g1)" and k: "connKey h c1 = Inr k" for c1 k
  proof (cases "map_of m0 k")
    case None
    from alignAll_inserted [OF al nn None d1 c1 k] None show ?thesis by simp
  next
    case (Some c)
    from alignAll_choice [OF al, of k] have "map_of m k = Some c1 \<or> map_of m k = map_of m0 k"
    proof
      assume "map_of m k = map_of m0 k"
      then show ?thesis by simp
    next
      assume "\<exists>c'\<in>set (ConnGenes g1). connKey h c' = Inr k \<and> map_of m k = Some c'"
      then obtain c' where c': "c' \<in> set (ConnGenes g1)" "connKey h c' = Inr k" "map_of m k = Some c'"
        by blast
      from inj1 c1 c'(1) k c'(2) have "c' = c1" by (simp add: inj_on_def)
      with c'(3) show ?thesis by simp
    qed
    with Some show ?thesis by simp
  qed
  have p4: "map_of m k = map_of m0 k" if "Inr k \<notin> connKey h ` set (ConnGenes g1)" for k
    using al that by (rule alignAll_untouched)
  have "set (map (connTuple h') (ConnGenes child)) = connTuple h ` snd ` set m"
    by (simp add: tuples rangeOrder_set del: map_map)
  then have p5: "set (map (connTuple h') (ConnGenes child)) = connTuple h ` {c. \<exists>k. map_of m k = Some c}"
    by (simp only: map_values [OF dm])
  have p6: "uniquePairs h' child" using dm keyed keys by (rule child_uniquePairs)
  have inherit: "connTuple h c \<in> set (map (connTuple h') (ConnGenes child))" if "map_of m k = Some c" for c k
    unfolding p5 using that by blast
  have p7: "connTuple h c \<in> set (map (connTuple h') (ConnGenes child))"
    if c: "c \<in> set (ConnGenes g0)" and only: "connKey h c \<notin> connKey h ` set (ConnGenes g1)" for c
  proof -
    from valid_keys [OF v0] c obtain k where k: "connKey h c = Inr k" by blast
    with only have "Inr k \<notin> connKey h ` set (ConnGenes g1)" by simp
    from p4 [OF this] p1 [OF c k] have "map_of m k = Some c" by simp
    then show ?thesis by (rule inherit)
  qed
  have p8: "connTuple h c \<in> set (map (connTuple h') (ConnGenes child))"
    if c: "c \<in> set (ConnGenes g1)" and only: "connKey h c \<notin> connKey h ` set (ConnGenes g0)" for c
  proof -
    from valid_keys [OF v1] c obtain k where k: "connKey h c = Inr k" by blast
    with only have "Inr k \<notin> connKey h ` set (ConnGenes g0)" by simp
    from p2 [OF this] p3 [OF c k] have "map_of m k = Some c" by simp
    then show ?thesis by (rule inherit)
  qed
  have p9: "connTuple h c0 \<in> set (map (connTuple h') (ConnGenes child)) \<and>
           (\<forall>c\<in>set (ConnGenes child). connKey h' c = connKey h c0 \<longrightarrow>
              connTuple h' c = connTuple h c0)"
    if first: "\<forall>i. 1 / 2 \<le> unit_of (r i)" and c0: "c0 \<in> set (ConnGenes g0)" for c0
  proof -
    from valid_keys [OF v0] c0 obtain k where k: "connKey h c0 = Inr k" by blast
    from alignAll_keep_first [OF al first nn p1 [OF c0 k]] have kept: "map_of m k = Some c0" .
    have "connTuple h' c = connTuple h c0"
      if c: "c \<in> set (ConnGenes child)" and same: "connKey h' c = connKey h c0" for c
    proof -
      from paired_elem [OF keys tuples c] obtain v where
        v: "v \<in> set (map snd (rangeOrder sched m))" "connKey h' c = connKey h v"
           "connTuple h' c = connTuple h v"
        by blast
      from v(1) obtain e where e: "e \<in> set m" "v = snd e" by (auto simp: rangeOrder_set)
      with keyed have "connKey h v = Inr (fst e)" by simp
      with v(2) same k have "fst e = k" by simp
      with e have "(k, v) \<in> set m" by (metis prod.collapse)
      with dm have "map_of m k = Some v" by (simp add: map_of_eq_Some_iff)
      with kept have "v = c0" by simp
      with v(3) show ?thesis by simp
    qed
    with inherit [OF kept] show ?thesis by blast
  qed
  have own: "connTuple h' c = connTuple h v"
    if kept: "map_of m k = Some v" and c: "c \<in> set (ConnGenes child)" and same: "connKey h' c = Inr k"
    for k v c
  proof -
    from paired_elem [OF keys tuples c] obtain w where
      w: "w \<in> set (map snd (rangeOrder sched m))" "connKey h' c = connKey h w"
         "connTuple h' c = connTuple h w"
      by blast
    from w(1) obtain e where e: "e \<in> set m" "w = snd e" by (auto simp: rangeOrder_set)
    with keyed have "connKey h w = Inr (fst e)" by simp
    with w(2) same have "fst e = k" by simp
    with e have "(k, w) \<in> set m" by (metis prod.collapse)
    with dm have "map_of m k = Some w" by (simp add: map_of_eq_Some_iff)
    with kept have "w = v" by simp
    with w(3) show ?thesis by simp
  qed
  have present: "(\<exists>k. connKey h c = Inr k \<and> map_of m0 k \<noteq> None) = sharedKey h (ConnGenes g0) c"
    if c: "c \<in> set (ConnGenes g1)" for c
  proof -
    from valid_keys [OF v1] c obtain k where k: "connKey h c = Inr k" by blast
    show ?thesis
    proof (cases "Inr k \<in> connKey h ` set (ConnGenes g0)")
      case True
      then obtain c0 where "c0 \<in> set (ConnGenes g0)" "connKey h c0 = Inr k" by force
      from p1 [OF this] True k show ?thesis by (simp add: sharedKey_def)
    next
      case False
      from p2 [OF this] False k show ?thesis by (simp add: sharedKey_def)
    qed
  qed
  have draws: "length (filter (\<lambda>c. \<exists>k. connKey h c = Inr k \<and> map_of m0 k \<noteq> None) (take j (ConnGenes g1))) =
      tieBreak h (ConnGenes g0) (ConnGenes g1) j" for j
  proof -
    have "filter (\<lambda>c. \<exists>k. connKey h c = Inr k \<and> map_of m0 k \<noteq> None) (take j (ConnGenes g1)) =
        filter (sharedKey h (ConnGenes g0)) (take j (ConnGenes g1))"
    proof (rule filter_cong [OF refl])
      fix c
      assume "c \<in> set (take j (ConnGenes g1))"
      then have "c \<in> set (ConnGenes g1)" by (rule in_set_takeD)
      then show "(\<exists>k. connKey h c = Inr k \<and> map_of m0 k \<noteq> None) = sharedKey h (ConnGenes g0) c"
        by (rule present)
    qed
    then show ?thesis by (simp only: tieBreak_def)
  qed
  have p10: "r' = skip (length (filter (sharedKey h (ConnGenes g0)) (ConnGenes g1))) r"
  proof -
    have "filter (\<lambda>c. \<exists>k. connKey h c = Inr k \<and> map_of m0 k \<noteq> None) (ConnGenes g1) =
        filter (sharedKey h (ConnGenes g0)) (ConnGenes g1)"
      by (rule filter_cong [OF refl]) (rule present)
    with alignAll_exact(1) [OF al nn d1] show ?thesis by (simp only:)
  qed
  have decided: "map_of m k =
          (if unit_of (r (tieBreak h (ConnGenes g0) (ConnGenes g1) j)) < 1 / 2
           then Some (ConnGenes g1 ! j) else map_of m0 k)"
    if j: "j < length (ConnGenes g1)" and k: "connKey h (ConnGenes g1 ! j) = Inr k"
      and sh: "sharedKey h (ConnGenes g0) (ConnGenes g1 ! j)" for j k
  proof -
    from j have "ConnGenes g1 ! j \<in> set (ConnGenes g1)" by simp
    from present [OF this] sh k have "map_of m0 k \<noteq> None" by simp
    from alignAll_exact(2) [OF al nn d1 j k this] show ?thesis by (simp only: draws)
  qed
  have p11: "\<forall>j<length (ConnGenes g1). \<forall>k. connKey h (ConnGenes g1 ! j) = Inr k \<longrightarrow>
        sharedKey h (ConnGenes g0) (ConnGenes g1 ! j) \<longrightarrow>
        map_of m k =
          (if unit_of (r (tieBreak h (ConnGenes g0) (ConnGenes g1) j)) < 1 / 2
           then Some (ConnGenes g1 ! j) else map_of m0 k)"
    using decided by blast
  have p12: "\<forall>j<length (ConnGenes g1). \<forall>c0\<in>set (ConnGenes g0).
        connKey h c0 = connKey h (ConnGenes g1 ! j) \<longrightarrow>
        (\<forall>c\<in>set (ConnGenes child). connKey h' c = connKey h c0 \<longrightarrow>
           connTuple h' c =
             (if unit_of (r (tieBreak h (ConnGenes g0) (ConnGenes g1) j)) < 1 / 2
              then connTuple h (ConnGenes g1 ! j) else connTuple h c0)) \<and>
        (if unit_of (r (tieBreak h (ConnGenes g0) (ConnGenes g1) j)) < 1 / 2
         then connTuple h (ConnGenes g1 ! j) else connTuple h c0)
          \<in> set (map (connTuple h') (ConnGenes child))"
  proof (intro allI impI ballI)
    fix j c0
    assume j: "j < length (ConnGenes g1)" and c0: "c0 \<in> set (ConnGenes g0)"
      and same: "connKey h c0 = connKey h (ConnGenes g1 ! j)"
    let ?c1 = "ConnGenes g1 ! j"
    let ?low = "unit_of (r (tieBreak h (ConnGenes g0) (ConnGenes g1) j)) < 1 / 2"
    from valid_keys [OF v0] c0 obtain k where k0: "connKey h c0 = Inr k" by blast
    with same have k1: "connKey h ?c1 = Inr k" by simp
    have sh: "sharedKey h (ConnGenes g0) ?c1"
      unfolding sharedKey_def same [symmetric] using c0 by simp
    from decided [OF j k1 sh] p1 [OF c0 k0]
    have m: "map_of m k = Some (if ?low then ?c1 else c0)" by simp
    have "connTuple h' c = connTuple h (if ?low then ?c1 else c0)"
      if "c \<in> set (ConnGenes child)" "connKey h' c = connKey h c0" for c
      using m that(1) that(2) [unfolded k0] by (rule own)
    moreover from inherit [OF m]
    have "connTuple h (if ?low then ?c1 else c0) \<in> set (map (connTuple h') (ConnGenes child))" .
    ultimately show "(\<forall>c\<in>set (ConnGenes child). connKey h' c = connKey h c0 \<longrightarrow>
           connTuple h' c = (if ?low then connTuple h ?c1 else connTuple h c0)) \<and>
        (if ?low then connTuple h ?c1 else connTuple h c0)
          \<in> set (map (connTuple h') (ConnGenes child))"
      by (simp add: if_distrib [of "connTuple h"])
  qed
  show ?thesis
    using rec al run p1 p2 p3 p4 p5 p6 p7 p8 p9 p10 p11 p12
    by (intro exI [of _ m0] exI [of _ m] exI [of _ child] exI [of _ h'] exI [of _ r'] conjI)
      ((assumption | blast)+)
qed


theorem Crossover_alignment_witness:
  "valid exHeap exGenomeA \<and> valid exHeap exGenomeB \<and>
   (\<exists>child h' r'. Crossover 3 exGenomeA exGenomeB exHeap exRandHigh [1] = Inr (child, h', r') \<and>
      Some (0, 1, 5, False) \<in> set (map (connTuple h') (ConnGenes child)) \<and>
      Some (1, 3, 1, False) \<in> set (map (connTuple h') (ConnGenes child)) \<and>
      Some (3, 2, 4, False) \<in> set (map (connTuple h') (ConnGenes child)) \<and>
      Some (0, 2, 1 / 2, False) \<in> set (map (connTuple h') (ConnGenes child)) \<and>
      Some (1, 2, - 3, True) \<in> set (map (connTuple h') (ConnGenes child)) \<and>
      uniquePairs h' child) \<and>
   unit_of (exRandMixed 0) = 0 \<and> unit_of (exRandMixed 1) = 1 / 2 \<and>
   (\<exists>child h' r'. Crossover 3 exGenomeA exGenomeB exHeap exRandMixed [1] = Inr (child, h', r') \<and>
      r' = skip 2 exRandMixed \<and>
      Some (0, 2, 2, False) \<in> set (map (connTuple h') (ConnGenes child)) \<and>
      Some (0, 2, 1 / 2, False) \<notin> set (map (connTuple h') (ConnGenes child)) \<and>
      Some (1, 2, - 3, True) \<in> set (map (connTuple h') (ConnGenes child)) \<and>
      Some (1, 2, 4, True) \<notin> set (map (connTuple h') (ConnGenes child)))"
proof -
  have first: "\<forall>i. 1 / 2 \<le> unit_of (exRandHigh i)"
    by (simp add: unit_of_def exRandHigh_def)
  have keysA: "map (connKey exHeap) (ConnGenes exGenomeA) = [Inr (0, 2), Inr (1, 2), Inr (0, 1)]"
    by (simp add: connKey_def getConn_def getNode_def deref_def exHeap_def exGenomeA_def)
  have keysB: "map (connKey exHeap) (ConnGenes exGenomeB) = [Inr (0, 2), Inr (1, 2), Inr (1, 3), Inr (3, 2)]"
    by (simp add: connKey_def getConn_def getNode_def deref_def exHeap_def exGenomeB_def)
  have tuplesA: "map (connTuple exHeap) (ConnGenes exGenomeA) =
      [Some (0, 2, 1 / 2, False), Some (1, 2, - 3, True), Some (0, 1, 5, False)]"
    by (simp add: connTuple_def connKey_def getConn_def getNode_def deref_def exHeap_def exGenomeA_def)
  have tuplesB: "map (connTuple exHeap) (ConnGenes exGenomeB) =
      [Some (0, 2, 2, False), Some (1, 2, 4, True), Some (1, 3, 1, False), Some (3, 2, 4, False)]"
    by (simp add: connTuple_def connKey_def getConn_def getNode_def deref_def exHeap_def exGenomeB_def)
  have A: "ConnGenes exGenomeA = [Some 0, Some 1, Some 2]" by (simp add: exGenomeA_def)
  have B: "ConnGenes exGenomeB = [Some 3, Some 4, Some 5, Some 6]" by (simp add: exGenomeB_def)
  from Crossover_alignment [OF ex_valid, where gid = 3 and r = exRandHigh and sched = "[1]"]
  obtain child h' r' where
    run: "Crossover 3 exGenomeA exGenomeB exHeap exRandHigh [1] = Inr (child, h', r')" and
    u: "uniquePairs h' child" and
    b: "\<forall>c\<in>set (ConnGenes exGenomeB). connKey exHeap c \<notin> connKey exHeap ` set (ConnGenes exGenomeA) \<longrightarrow>
        connTuple exHeap c \<in> set (map (connTuple h') (ConnGenes child))" and
    c: "(\<forall>i. 1 / 2 \<le> unit_of (exRandHigh i)) \<longrightarrow>
        (\<forall>c0\<in>set (ConnGenes exGenomeA). connTuple exHeap c0 \<in> set (map (connTuple h') (ConnGenes child)) \<and>
           (\<forall>c\<in>set (ConnGenes child). connKey h' c = connKey exHeap c0 \<longrightarrow>
              connTuple h' c = connTuple exHeap c0))"
    by (elim exE conjE) (rule that; assumption)
  from keysA have imA: "connKey exHeap ` set (ConnGenes exGenomeA) = {Inr (0, 2), Inr (1, 2), Inr (0, 1)}"
    by (simp only: list.set_map [symmetric] list.set)
  from tuplesA A have tA: "connTuple exHeap (Some 0) = Some (0, 2, 1 / 2, False)"
    "connTuple exHeap (Some 1) = Some (1, 2, - 3, True)" "connTuple exHeap (Some 2) = Some (0, 1, 5, False)"
    by simp_all
  from tuplesB B have tB: "connTuple exHeap (Some 5) = Some (1, 3, 1, False)"
    "connTuple exHeap (Some 6) = Some (3, 2, 4, False)"
    by simp_all
  from keysB B have kB: "connKey exHeap (Some 5) = Inr (1, 3)" "connKey exHeap (Some 6) = Inr (3, 2)"
    by simp_all
  from c first have "\<forall>c0\<in>set (ConnGenes exGenomeA). connTuple exHeap c0 \<in> set (map (connTuple h') (ConnGenes child))"
    by simp
  then have fromA: "Some (0, 2, 1 / 2, False) \<in> set (map (connTuple h') (ConnGenes child))"
    "Some (1, 2, - 3, True) \<in> set (map (connTuple h') (ConnGenes child))"
    "Some (0, 1, 5, False) \<in> set (map (connTuple h') (ConnGenes child))"
    by (simp_all add: A tA del: One_nat_def)
  have "Some 5 \<in> set (ConnGenes exGenomeB)" "Some 6 \<in> set (ConnGenes exGenomeB)" by (simp_all add: B)
  with b have "connKey exHeap (Some 5) \<notin> connKey exHeap ` set (ConnGenes exGenomeA) \<longrightarrow>
        connTuple exHeap (Some 5) \<in> set (map (connTuple h') (ConnGenes child))"
    "connKey exHeap (Some 6) \<notin> connKey exHeap ` set (ConnGenes exGenomeA) \<longrightarrow>
        connTuple exHeap (Some 6) \<in> set (map (connTuple h') (ConnGenes child))"
    by blast+
  then have fromB: "Some (1, 3, 1, False) \<in> set (map (connTuple h') (ConnGenes child))"
    "Some (3, 2, 4, False) \<in> set (map (connTuple h') (ConnGenes child))"
    by (simp_all add: imA kB tB)
  from run u fromA fromB
  have high: "\<exists>child h' r'. Crossover 3 exGenomeA exGenomeB exHeap exRandHigh [1] = Inr (child, h', r') \<and>
      Some (0, 1, 5, False) \<in> set (map (connTuple h') (ConnGenes child)) \<and>
      Some (1, 3, 1, False) \<in> set (map (connTuple h') (ConnGenes child)) \<and>
      Some (3, 2, 4, False) \<in> set (map (connTuple h') (ConnGenes child)) \<and>
      Some (0, 2, 1 / 2, False) \<in> set (map (connTuple h') (ConnGenes child)) \<and>
      Some (1, 2, - 3, True) \<in> set (map (connTuple h') (ConnGenes child)) \<and>
      uniquePairs h' child"
    by blast
  have low: "unit_of (exRandMixed 0) = 0" and half: "unit_of (exRandMixed (Suc 0)) = 1 / 2"
    by (simp_all add: unit_of_def exRandMixed_def)
  from keysB B have kB': "connKey exHeap (Some 3) = Inr (0, 2)" "connKey exHeap (Some 4) = Inr (1, 2)"
    by simp_all
  from keysA A have kA: "connKey exHeap (Some 0) = Inr (0, 2)" "connKey exHeap (Some (Suc 0)) = Inr (1, 2)"
    by simp_all
  have sk: "sharedKey exHeap (ConnGenes exGenomeA) (Some 3)" "sharedKey exHeap (ConnGenes exGenomeA) (Some 4)"
    "\<not> sharedKey exHeap (ConnGenes exGenomeA) (Some 5)" "\<not> sharedKey exHeap (ConnGenes exGenomeA) (Some 6)"
    by (simp_all add: sharedKey_def keysA kB kB')
  have shared: "filter (sharedKey exHeap (ConnGenes exGenomeA)) (ConnGenes exGenomeB) = [Some 3, Some 4]"
    by (simp add: B sk)
  have tb0: "tieBreak exHeap (ConnGenes exGenomeA) (ConnGenes exGenomeB) 0 = 0"
    by (simp add: tieBreak_def)
  have tb1: "tieBreak exHeap (ConnGenes exGenomeA) (ConnGenes exGenomeB) (Suc 0) = Suc 0"
    by (simp add: tieBreak_def B sk)
  from Crossover_alignment [OF ex_valid, where gid = 3 and r = exRandMixed and sched = "[1]"]
  obtain child2 h2 r2 where
    run2: "Crossover 3 exGenomeA exGenomeB exHeap exRandMixed [1] = Inr (child2, h2, r2)" and
    cnt: "r2 = skip (length (filter (sharedKey exHeap (ConnGenes exGenomeA)) (ConnGenes exGenomeB)))
            exRandMixed" and
    tb: "\<forall>j<length (ConnGenes exGenomeB). \<forall>c0\<in>set (ConnGenes exGenomeA).
        connKey exHeap c0 = connKey exHeap (ConnGenes exGenomeB ! j) \<longrightarrow>
        (\<forall>c\<in>set (ConnGenes child2). connKey h2 c = connKey exHeap c0 \<longrightarrow>
           connTuple h2 c =
             (if unit_of (exRandMixed (tieBreak exHeap (ConnGenes exGenomeA) (ConnGenes exGenomeB) j)) < 1 / 2
              then connTuple exHeap (ConnGenes exGenomeB ! j) else connTuple exHeap c0)) \<and>
        (if unit_of (exRandMixed (tieBreak exHeap (ConnGenes exGenomeA) (ConnGenes exGenomeB) j)) < 1 / 2
         then connTuple exHeap (ConnGenes exGenomeB ! j) else connTuple exHeap c0)
          \<in> set (map (connTuple h2) (ConnGenes child2))"
    by (elim exE conjE) (rule that; assumption)
  from tuplesB B have tB': "connTuple exHeap (Some 3) = Some (0, 2, 2, False)"
    "connTuple exHeap (Some 4) = Some (1, 2, 4, True)"
    by simp_all
  have "length [Some 3, Some 4 :: nat option] = 2" by simp
  with cnt have cnt2: "r2 = skip 2 exRandMixed" by (simp only: shared)
  have j0: "0 < length (ConnGenes exGenomeB)" "ConnGenes exGenomeB ! 0 = Some 3"
    and j1: "Suc 0 < length (ConnGenes exGenomeB)" "ConnGenes exGenomeB ! Suc 0 = Some 4"
    by (simp_all add: B)
  have a0: "Some 0 \<in> set (ConnGenes exGenomeA)" and a1: "Some (Suc 0) \<in> set (ConnGenes exGenomeA)"
    by (simp_all add: A)
  from tb j0(1) a0 have
    "connKey exHeap (Some 0) = connKey exHeap (ConnGenes exGenomeB ! 0) \<longrightarrow>
        (\<forall>c\<in>set (ConnGenes child2). connKey h2 c = connKey exHeap (Some 0) \<longrightarrow>
           connTuple h2 c =
             (if unit_of (exRandMixed (tieBreak exHeap (ConnGenes exGenomeA) (ConnGenes exGenomeB) 0)) < 1 / 2
              then connTuple exHeap (ConnGenes exGenomeB ! 0) else connTuple exHeap (Some 0))) \<and>
        (if unit_of (exRandMixed (tieBreak exHeap (ConnGenes exGenomeA) (ConnGenes exGenomeB) 0)) < 1 / 2
         then connTuple exHeap (ConnGenes exGenomeB ! 0) else connTuple exHeap (Some 0))
          \<in> set (map (connTuple h2) (ConnGenes child2))"
    by blast
  then have swapped: "\<forall>c\<in>set (ConnGenes child2). connKey h2 c = Inr (0, 2) \<longrightarrow>
        connTuple h2 c = Some (0, 2, 2, False)"
    and got1: "Some (0, 2, 2, False) \<in> set (map (connTuple h2) (ConnGenes child2))"
    by (simp_all add: j0(2) kA kB' tb0 low tB')
  from tb j1(1) a1 have
    "connKey exHeap (Some (Suc 0)) = connKey exHeap (ConnGenes exGenomeB ! Suc 0) \<longrightarrow>
        (\<forall>c\<in>set (ConnGenes child2). connKey h2 c = connKey exHeap (Some (Suc 0)) \<longrightarrow>
           connTuple h2 c =
             (if unit_of (exRandMixed (tieBreak exHeap (ConnGenes exGenomeA) (ConnGenes exGenomeB) (Suc 0))) < 1 / 2
              then connTuple exHeap (ConnGenes exGenomeB ! Suc 0) else connTuple exHeap (Some (Suc 0)))) \<and>
        (if unit_of (exRandMixed (tieBreak exHeap (ConnGenes exGenomeA) (ConnGenes exGenomeB) (Suc 0))) < 1 / 2
         then connTuple exHeap (ConnGenes exGenomeB ! Suc 0) else connTuple exHeap (Some (Suc 0)))
          \<in> set (map (connTuple h2) (ConnGenes child2))"
    by blast
  then have kept: "\<forall>c\<in>set (ConnGenes child2). connKey h2 c = Inr (1, 2) \<longrightarrow>
        connTuple h2 c = Some (1, 2, - 3, True)"
    and got0: "Some (1, 2, - 3, True) \<in> set (map (connTuple h2) (ConnGenes child2))"
    using tA(2) by (simp_all add: j1(2) kA kB' tb1 half)
  have gone0: "Some (0, 2, 1 / 2, False) \<notin> set (map (connTuple h2) (ConnGenes child2))"
  proof
    assume "Some (0, 2, 1 / 2, False) \<in> set (map (connTuple h2) (ConnGenes child2))"
    then obtain c where c: "c \<in> set (ConnGenes child2)" "connTuple h2 c = Some (0, 2, 1 / 2, False)"
      by auto
    from connTuple_connKey [OF c(2)] swapped c(1) have "connTuple h2 c = Some (0, 2, 2, False)" by blast
    with c(2) show False by simp
  qed
  have gone1: "Some (1, 2, 4, True) \<notin> set (map (connTuple h2) (ConnGenes child2))"
  proof
    assume "Some (1, 2, 4, True) \<in> set (map (connTuple h2) (ConnGenes child2))"
    then obtain c where c: "c \<in> set (ConnGenes child2)" "connTuple h2 c = Some (1, 2, 4, True)"
      by auto
    from connTuple_connKey [OF c(2)] kept c(1) have "connTuple h2 c = Some (1, 2, - 3, True)" by blast
    with c(2) show False by simp
  qed
  from run2 cnt2 got1 gone0 got0 gone1
  have mixed: "\<exists>child h' r'. Crossover 3 exGenomeA exGenomeB exHeap exRandMixed [1] = Inr (child, h', r') \<and>
      r' = skip 2 exRandMixed \<and>
      Some (0, 2, 2, False) \<in> set (map (connTuple h') (ConnGenes child)) \<and>
      Some (0, 2, 1 / 2, False) \<notin> set (map (connTuple h') (ConnGenes child)) \<and>
      Some (1, 2, - 3, True) \<in> set (map (connTuple h') (ConnGenes child)) \<and>
      Some (1, 2, 4, True) \<notin> set (map (connTuple h') (ConnGenes child))"
    by blast
  have draws: "unit_of (exRandMixed 0) = 0" "unit_of (exRandMixed 1) = 1 / 2"
    using low half by simp_all
  from ex_valid high draws mixed show ?thesis by (intro conjI) (assumption+)
qed

section \<open>The add-connection step on valid genomes\<close>

lemma alreadyLinked_resolved:
  "\<forall>c\<in>set conns. getConn h c \<noteq> None \<Longrightarrow>
     alreadyLinked h s0 s1 conns =
       Inr (\<exists>c\<in>set conns. \<exists>x. getConn h c = Some x \<and> From x = s0 \<and> To x = s1)"
proof (induction conns)
  case Nil
  show ?case by simp
next
  case (Cons conn conns)
  from Cons.prems obtain x where x: "getConn h conn = Some x" by auto
  show ?case
  proof (cases "From x = s0 \<and> To x = s1")
    case True
    with x show ?thesis by auto
  next
    case False
    from Cons have "alreadyLinked h s0 s1 conns =
       Inr (\<exists>c\<in>set conns. \<exists>x. getConn h c = Some x \<and> From x = s0 \<and> To x = s1)"
      by simp
    with x False show ?thesis by auto
  qed
qed

lemma valid_node_id:
  assumes "valid h g" and "i < length (NodeGenes g)"
  obtains n where "getNode h (NodeGenes g ! i) = Some n" "ID n = int i"
  using assms unfolding valid_def idAsIndex_iff by blast

lemma valid_connected_iff:
  assumes v: "valid h g" and i0: "i0 < length (NodeGenes g)" and i1: "i1 < length (NodeGenes g)"
  shows "(\<exists>c\<in>set (ConnGenes g). \<exists>x. getConn h c = Some x \<and> From x = NodeGenes g ! i0 \<and>
            To x = NodeGenes g ! i1) \<longleftrightarrow>
         Inr (int i0, int i1) \<in> set (map (connKey h) (ConnGenes g))"
proof
  assume "\<exists>c\<in>set (ConnGenes g). \<exists>x. getConn h c = Some x \<and> From x = NodeGenes g ! i0 \<and>
            To x = NodeGenes g ! i1"
  then obtain c x where c: "c \<in> set (ConnGenes g)" "getConn h c = Some x"
    "From x = NodeGenes g ! i0" "To x = NodeGenes g ! i1" by blast
  from v i0 obtain n0 where n0: "getNode h (NodeGenes g ! i0) = Some n0" "ID n0 = int i0"
    by (rule valid_node_id)
  from v i1 obtain n1 where n1: "getNode h (NodeGenes g ! i1) = Some n1" "ID n1 = int i1"
    by (rule valid_node_id)
  from c n0 n1 have "connKey h c = Inr (int i0, int i1)" by (simp add: connKey_def)
  with c(1) show "Inr (int i0, int i1) \<in> set (map (connKey h) (ConnGenes g))" by force
next
  assume "Inr (int i0, int i1) \<in> set (map (connKey h) (ConnGenes g))"
  then obtain c where c: "c \<in> set (ConnGenes g)" "connKey h c = Inr (int i0, int i1)" by auto
  from v c(1) obtain x i j where x: "getConn h c = Some x" "From x = NodeGenes g ! i"
    "To x = NodeGenes g ! j" "connKey h c = Inr (int i, int j)"
    by (rule valid_connKey)
  with c(2) have "i = i0" "j = i1" by simp_all
  with x c(1) show "\<exists>c\<in>set (ConnGenes g). \<exists>x. getConn h c = Some x \<and> From x = NodeGenes g ! i0 \<and>
            To x = NodeGenes g ! i1" by blast
qed

lemma addConn_fires:
  assumes v: "valid h g" and ne: "NodeGenes g \<noteq> []" and f: "unit_of (r 0) < rate"
  shows "addConn rate g h r =
     (if Inr (int (bits (r 1) mod length (NodeGenes g)), int (bits (r 2) mod length (NodeGenes g)))
           \<in> set (map (connKey h) (ConnGenes g))
      then Inr (g, h, skip 3 r)
      else Inr (g\<lparr>ConnGenes := ConnGenes g @ [Some (length (connObjs h))]\<rparr>,
                h\<lparr>connObjs := connObjs h @
                     [\<lparr>From = NodeGenes g ! (bits (r 1) mod length (NodeGenes g)),
                        To = NodeGenes g ! (bits (r 2) mod length (NodeGenes g)),
                        Weight = gauss (r 3) * 6, Disabled = False\<rparr>]\<rparr>,
                skip 4 r))"
proof -
  let ?n = "length (NodeGenes g)"
  let ?i0 = "bits (r 1) mod ?n"
  let ?i1 = "bits (r 2) mod ?n"
  from ne have i: "?i0 < ?n" "?i1 < ?n" by simp_all
  have res: "\<forall>c\<in>set (ConnGenes g). getConn h c \<noteq> None"
    using v by (auto elim: valid_connKey)
  have e3: "skip (Suc 0) (skip (Suc 0) (skip (Suc 0) r)) = skip 3 r"
    and e4: "skip (Suc 0) (skip (Suc 0) (skip (Suc 0) (skip (Suc 0) r))) = skip 4 r"
    by (simp_all add: skip_skip eval_nat_numeral)
  have "alreadyLinked h (NodeGenes g ! ?i0) (NodeGenes g ! ?i1) (ConnGenes g) =
      Inr (Inr (int ?i0, int ?i1) \<in> set (map (connKey h) (ConnGenes g)))"
    unfolding alreadyLinked_resolved [OF res] valid_connected_iff [OF v i] ..
  with ne f show ?thesis
    by (simp add: addConn_def Float64_def Intn_def NormFloat64_def NewConnGene_def skip_apply
        skip_skip eval_nat_numeral)
qed

lemma valid_append_conn:
  assumes v: "valid h g" and i0: "i0 < length (NodeGenes g)" and i1: "i1 < length (NodeGenes g)"
    and fresh: "Inr (int i0, int i1) \<notin> set (map (connKey h) (ConnGenes g))"
  shows "valid (h\<lparr>connObjs := connObjs h @
                  [\<lparr>From = NodeGenes g ! i0, To = NodeGenes g ! i1, Weight = w, Disabled = d\<rparr>]\<rparr>)
               (g\<lparr>ConnGenes := ConnGenes g @ [Some (length (connObjs h))]\<rparr>)"
proof -
  let ?new = "\<lparr>From = NodeGenes g ! i0, To = NodeGenes g ! i1, Weight = w, Disabled = d\<rparr>"
  let ?h = "h\<lparr>connObjs := connObjs h @ [?new]\<rparr>"
  let ?g = "g\<lparr>ConnGenes := ConnGenes g @ [Some (length (connObjs h))]\<rparr>"
  from v have "idAsIndex h g" by (simp add: valid_def)
  then have a: "idAsIndex ?h ?g"
    using idAsIndex_same_nodes [of ?h h ?g g] by simp
  have old: "\<exists>x. getConn ?h c = Some x \<and> getConn h c = Some x \<and> connKey ?h c = connKey h c \<and>
      From x \<in> set (NodeGenes g) \<and> To x \<in> set (NodeGenes g)"
    if c: "c \<in> set (ConnGenes g)" for c
  proof -
    from v c obtain x i j where x: "getConn h c = Some x" "i < length (NodeGenes g)"
      "j < length (NodeGenes g)" "From x = NodeGenes g ! i" "To x = NodeGenes g ! j"
      "connKey h c = Inr (int i, int j)"
      by (rule valid_connKey)
    from getConn_append [OF x(1), of "[?new]"] connKey_append_conns [OF x(6), of "[?new]"] x
    show ?thesis by simp
  qed
  have new: "getConn ?h (Some (length (connObjs h))) = Some ?new"
    by (simp add: getConn_def deref_def)
  from v i0 obtain n0 where n0: "getNode h (NodeGenes g ! i0) = Some n0" "ID n0 = int i0"
    by (rule valid_node_id)
  from v i1 obtain n1 where n1: "getNode h (NodeGenes g ! i1) = Some n1" "ID n1 = int i1"
    by (rule valid_node_id)
  from new n0 n1 have key: "connKey ?h (Some (length (connObjs h))) = Inr (int i0, int i1)"
    by (simp add: connKey_def)
  have b: "endpointsOwned ?h ?g"
    unfolding endpointsOwned_def list_all_iff
  proof
    fix c
    assume "c \<in> set (ConnGenes ?g)"
    then consider "c \<in> set (ConnGenes g)" | "c = Some (length (connObjs h))" by auto
    then show "case getConn ?h c of None \<Rightarrow> False
        | Some x \<Rightarrow> From x \<in> set (NodeGenes ?g) \<and> To x \<in> set (NodeGenes ?g)"
    proof cases
      case 1
      from old [OF 1] show ?thesis by auto
    next
      case 2
      with new i0 i1 show ?thesis by simp
    qed
  qed
  have eqold: "map (connKey ?h) (ConnGenes g) = map (connKey h) (ConnGenes g)"
  proof (rule map_cong [OF refl])
    fix c
    assume "c \<in> set (ConnGenes g)"
    from old [OF this] show "connKey ?h c = connKey h c" by blast
  qed
  have "ConnGenes ?g = ConnGenes g @ [Some (length (connObjs h))]" by simp
  then have "map (connKey ?h) (ConnGenes ?g) =
      map (connKey ?h) (ConnGenes g) @ [connKey ?h (Some (length (connObjs h)))]"
    by (simp only: map_append list.map)
  also have "\<dots> = map (connKey h) (ConnGenes g) @ [Inr (int i0, int i1)]"
    by (simp only: eqold key)
  finally have eq: "map (connKey ?h) (ConnGenes ?g) = map (connKey h) (ConnGenes g) @ [Inr (int i0, int i1)]" .
  from v have "distinct (map (connKey h) (ConnGenes g))" by (simp add: valid_def uniquePairs_def)
  with fresh have "distinct (map (connKey h) (ConnGenes g) @ [Inr (int i0, int i1)])" by simp
  then have c: "uniquePairs ?h ?g" unfolding uniquePairs_def eq .
  from a b c show ?thesis by (simp add: valid_def)
qed

lemma Mutate_add_conn:
  assumes v: "valid h g" and ne: "NodeGenes g \<noteq> []"
  shows "Mutate aset g 0 0 1 h r =
     (if Inr (int (bits (r (length (ConnGenes g) + 2)) mod length (NodeGenes g)),
              int (bits (r (length (ConnGenes g) + 3)) mod length (NodeGenes g)))
           \<in> set (map (connKey h) (ConnGenes g))
      then Inr (g, h, skip (length (ConnGenes g) + 4) r)
      else Inr (g\<lparr>ConnGenes := ConnGenes g @ [Some (length (connObjs h))]\<rparr>,
                h\<lparr>connObjs := connObjs h @
                     [\<lparr>From = NodeGenes g ! (bits (r (length (ConnGenes g) + 2)) mod length (NodeGenes g)),
                        To = NodeGenes g ! (bits (r (length (ConnGenes g) + 3)) mod length (NodeGenes g)),
                        Weight = gauss (r (length (ConnGenes g) + 4)) * 6, Disabled = False\<rparr>]\<rparr>,
                skip (length (ConnGenes g) + 5) r))"
proof -
  let ?n = "length (ConnGenes g)"
  let ?r = "skip (?n + 1) r"
  have f: "unit_of (?r 0) < 1" by (rule unit_of_less_one)
  have p: "?r 1 = r (?n + 2)" "?r 2 = r (?n + 3)" "?r 3 = r (?n + 4)"
    unfolding skip_def by (rule arg_cong [where f = r], arith)+
  have s: "skip 3 ?r = skip (?n + 4) r" "skip 4 ?r = skip (?n + 5) r"
    unfolding skip_skip by (rule arg_cong [where f = "\<lambda>k. skip k r"], arith)+
  have "Mutate aset g 0 0 1 h r = addConn 1 g h ?r"
    by (simp add: Mutate_def perturb_zero addNode_zero skip_skip)
  then show ?thesis
    unfolding addConn_fires [where r = ?r and rate = 1, OF v ne f] p s .
qed

lemma Mutate_add_conn_valid:
  assumes v: "valid h g" and ne: "NodeGenes g \<noteq> []"
  shows "\<exists>g' h' r'. Mutate aset g 0 0 1 h r = Inr (g', h', r') \<and> valid h' g' \<and>
           NodeGenes g' = NodeGenes g"
proof -
  let ?i0 = "bits (r (length (ConnGenes g) + 2)) mod length (NodeGenes g)"
  let ?i1 = "bits (r (length (ConnGenes g) + 3)) mod length (NodeGenes g)"
  from ne have i: "?i0 < length (NodeGenes g)" "?i1 < length (NodeGenes g)" by simp_all
  show ?thesis
  proof (cases "Inr (int ?i0, int ?i1) \<in> set (map (connKey h) (ConnGenes g))")
    case True
    with Mutate_add_conn [OF v ne, of aset r] v show ?thesis by simp
  next
    case False
    from valid_append_conn [OF v i False] Mutate_add_conn [OF v ne, of aset r] False
    show ?thesis by simp
  qed
qed

lemma repeatAddConn_valid:
  "valid h g \<Longrightarrow> NodeGenes g \<noteq> [] \<Longrightarrow>
     \<exists>g' h' r'. repeatAddConn aset n g h r = Inr (g', h', r') \<and> valid h' g' \<and>
       NodeGenes g' = NodeGenes g"
proof (induction n arbitrary: g h r)
  case 0
  then show ?case by simp
next
  case (Suc n)
  from Mutate_add_conn_valid [OF Suc.prems, of aset r] obtain g1 h1 r1 where
    step: "Mutate aset g 0 0 1 h r = Inr (g1, h1, r1)" and v1: "valid h1 g1" and
    n1: "NodeGenes g1 = NodeGenes g" by blast
  from n1 Suc.prems(2) have "NodeGenes g1 \<noteq> []" by simp
  from Suc.IH [OF v1 this, of r1] obtain g' h' r' where
    "repeatAddConn aset n g1 h1 r1 = Inr (g', h', r')" "valid h' g'" "NodeGenes g' = NodeGenes g1"
    by blast
  with step n1 show ?case by simp
qed


text \<open>
  C4. On a valid genome with at least one node (ID-as-index, owned ends, at most one
  connection for each pair \<open>(from.id, to.id)\<close>), any number of calls
  \<open>Mutate(g, 0, 0, 1.0)\<close> in a row return, and leave a valid genome: no pair of ids
  has two connections. In one such call the two nodes are those at the indices that
  \<open>Intn\<close> draws, which are their ids; if a connection with this pair of ids exists,
  the call returns the genome and the store as they were, and otherwise it appends one
  enabled connection between the two nodes.
\<close>

theorem add_connection_never_duplicates:
  assumes v: "valid h g" and ne: "NodeGenes g \<noteq> []"
  shows "(\<exists>g' h' r'. repeatAddConn aset n g h r = Inr (g', h', r') \<and> uniquePairs h' g' \<and> valid h' g') \<and>
     Mutate aset g 0 0 1 h r =
       (if Inr (int (bits (r (length (ConnGenes g) + 2)) mod length (NodeGenes g)),
                int (bits (r (length (ConnGenes g) + 3)) mod length (NodeGenes g)))
             \<in> set (map (connKey h) (ConnGenes g))
        then Inr (g, h, skip (length (ConnGenes g) + 4) r)
        else Inr (g\<lparr>ConnGenes := ConnGenes g @ [Some (length (connObjs h))]\<rparr>,
                  h\<lparr>connObjs := connObjs h @
                       [\<lparr>From = NodeGenes g ! (bits (r (length (ConnGenes g) + 2)) mod length (NodeGenes g)),
                          To = NodeGenes g ! (bits (r (length (ConnGenes g) + 3)) mod length (NodeGenes g)),
                          Weight = gauss (r (length (ConnGenes g) + 4)) * 6, Disabled = False\<rparr>]\<rparr>,
                  skip (length (ConnGenes g) + 5) r))"
proof
  from repeatAddConn_valid [OF v ne, of aset n r] obtain g' h' r' where
    "repeatAddConn aset n g h r = Inr (g', h', r')" "valid h' g'" by blast
  moreover from this(2) have "uniquePairs h' g'" by (simp add: valid_def)
  ultimately show "\<exists>g' h' r'. repeatAddConn aset n g h r = Inr (g', h', r') \<and> uniquePairs h' g' \<and> valid h' g'"
    by blast
next
  from v ne show "Mutate aset g 0 0 1 h r =
       (if Inr (int (bits (r (length (ConnGenes g) + 2)) mod length (NodeGenes g)),
                int (bits (r (length (ConnGenes g) + 3)) mod length (NodeGenes g)))
             \<in> set (map (connKey h) (ConnGenes g))
        then Inr (g, h, skip (length (ConnGenes g) + 4) r)
        else Inr (g\<lparr>ConnGenes := ConnGenes g @ [Some (length (connObjs h))]\<rparr>,
                  h\<lparr>connObjs := connObjs h @
                       [\<lparr>From = NodeGenes g ! (bits (r (length (ConnGenes g) + 2)) mod length (NodeGenes g)),
                          To = NodeGenes g ! (bits (r (length (ConnGenes g) + 3)) mod length (NodeGenes g)),
                          Weight = gauss (r (length (ConnGenes g) + 4)) * 6, Disabled = False\<rparr>]\<rparr>,
                  skip (length (ConnGenes g) + 5) r))"
    by (rule Mutate_add_conn)
qed

theorem add_connection_never_duplicates_witness:
  "valid exHeap exGenomeA \<and> NodeGenes exGenomeA \<noteq> [] \<and>
   (\<exists>g' h' r'. repeatAddConn exAset 5 exGenomeA exHeap exRand = Inr (g', h', r') \<and> uniquePairs h' g') \<and>
   Mutate exAset exGenomeA 0 0 1 exHeap (skip 1 exRand) = Inr (exGenomeA, exHeap, skip 8 exRand) \<and>
   Mutate exAset exGenomeA 0 0 1 exHeap exRand =
     Inr (exGenomeA\<lparr>ConnGenes := ConnGenes exGenomeA @ [Some 7]\<rparr>,
          exHeap\<lparr>connObjs := connObjs exHeap @
            [\<lparr>From = Some 2, To = Some 0, Weight = 21 / 2, Disabled = False\<rparr>]\<rparr>,
          skip 8 exRand)"
proof -
  have ne: "NodeGenes exGenomeA \<noteq> []" by (simp add: exGenomeA_def)
  have keys: "set (map (connKey exHeap) (ConnGenes exGenomeA)) = {Inr (0, 2), Inr (1, 2), Inr (0, 1)}"
    by (simp add: connKey_def getConn_def getNode_def deref_def exHeap_def exGenomeA_def)
  have len: "length (ConnGenes exGenomeA) = 3" "length (NodeGenes exGenomeA) = 3"
    "length (connObjs exHeap) = 7"
    by (simp_all add: exGenomeA_def exHeap_def)
  have nodes: "NodeGenes exGenomeA ! 2 = Some 2" "NodeGenes exGenomeA ! 0 = Some 0"
    by (simp_all add: exGenomeA_def)
  note inst = add_connection_never_duplicates [OF ex_valid(1) ne, where aset = exAset and n = 5]
  from inst [of exRand] have a: "\<exists>g' h' r'. repeatAddConn exAset 5 exGenomeA exHeap exRand = Inr (g', h', r') \<and>
      uniquePairs h' g'"
    by blast
  have b: "Mutate exAset exGenomeA 0 0 1 exHeap (skip 1 exRand) = Inr (exGenomeA, exHeap, skip 8 exRand)"
  proof -
    have i: "int (bits (skip 1 exRand (length (ConnGenes exGenomeA) + 2)) mod length (NodeGenes exGenomeA)) = 0"
      "int (bits (skip 1 exRand (length (ConnGenes exGenomeA) + 3)) mod length (NodeGenes exGenomeA)) = 1"
      by (simp_all add: len skip_def exRand_def)
    have mem: "Inr (0, 1) \<in> set (map (connKey exHeap) (ConnGenes exGenomeA))"
      unfolding keys by simp
    have s: "skip (length (ConnGenes exGenomeA) + 4) (skip 1 exRand) = skip 8 exRand"
      by (simp add: len skip_skip)
    from inst [of "skip 1 exRand"] show ?thesis
      unfolding i s using mem by simp
  qed
  have c: "Mutate exAset exGenomeA 0 0 1 exHeap exRand =
     Inr (exGenomeA\<lparr>ConnGenes := ConnGenes exGenomeA @ [Some 7]\<rparr>,
          exHeap\<lparr>connObjs := connObjs exHeap @
            [\<lparr>From = Some 2, To = Some 0, Weight = 21 / 2, Disabled = False\<rparr>]\<rparr>,
          skip 8 exRand)"
  proof -
    have i: "bits (exRand (length (ConnGenes exGenomeA) + 2)) mod length (NodeGenes exGenomeA) = 2"
      "bits (exRand (length (ConnGenes exGenomeA) + 3)) mod length (NodeGenes exGenomeA) = 0"
      by (simp_all add: len exRand_def)
    have mem: "Inr (int 2, int 0) \<notin> set (map (connKey exHeap) (ConnGenes exGenomeA))"
      unfolding keys by simp
    have w: "gauss (exRand (length (ConnGenes exGenomeA) + 4)) * 6 = 21 / 2"
      by (simp add: len exRand_def)
    have s: "skip (length (ConnGenes exGenomeA) + 5) exRand = skip 8 exRand"
      by (simp add: len)
    from inst [of exRand] show ?thesis
      unfolding i w s nodes len(3) using mem by simp
  qed
  from ex_valid(1) ne a b c show ?thesis by simp
qed

end
